theory Spec2Isabelle
  imports Complex_Main "HOL-Library.Multiset"
begin

section \<open>Data model\<close>

text \<open>
  The module \<open>omgtools/basics/spline_extra.py\<close> works on the classes \<open>BSplineBasis\<close>
  (a knot vector and a degree) and \<open>BSpline\<close> (a basis and a coefficient array).
  Floating point numbers are idealised as reals; the exceptions a call can raise are
  values of the type \<open>error\<close>.
\<close>

datatype error = IndexError | ValueError | TypeError | OutOfDomain | DegreeMismatch

record bspline_basis =
  knots :: "real list"
  degree :: nat

record bspline =
  basis :: bspline_basis
  coeffs :: "real list"

text \<open>
  Modelled from the spec: \<open>BSplineBasis.__len__\<close> is not part of the module; the length of
  a basis is \<open>len(knots) - degree - 1\<close>, the number of its basis functions.
\<close>

definition len_basis :: "bspline_basis \<Rightarrow> nat" where
  "len_basis b = length (knots b) - degree b - 1"

section \<open>Evaluation: \<open>evalspline\<close>\<close>

text \<open>The order-0 row: Python multiplies the two comparisons, giving 0 or 1.\<close>

definition ind0 :: "bspline_basis \<Rightarrow> real \<Rightarrow> nat \<Rightarrow> real" where
  "ind0 Bl x i =
     (if i < degree Bl + 1 \<and> knots Bl ! 0 = knots Bl ! i
      then of_bool (x \<ge> knots Bl ! i) * of_bool (x \<le> knots Bl ! (i + 1))
      else of_bool (x > knots Bl ! i) * of_bool (x \<le> knots Bl ! (i + 1)))"

definition basis0 :: "bspline_basis \<Rightarrow> real \<Rightarrow> real list" where
  "basis0 Bl x = map (ind0 Bl x) [0..<length (knots Bl) - 1]"

text \<open>One pass of the loop over \<open>d\<close>: the row of order \<open>d\<close> from the row of order \<open>d - 1\<close>.\<close>

definition basis_step :: "real list \<Rightarrow> real \<Rightarrow> nat \<Rightarrow> real list \<Rightarrow> real list" where
  "basis_step k x d prev = map (\<lambda>i.
      let b = 0 * x;
          bottom = k ! (i + d) - k ! i;
          b = (if bottom \<noteq> 0 then (x - k ! i) * prev ! i / bottom else b);
          bottom = k ! (i + d + 1) - k ! (i + 1);
          b = (if bottom \<noteq> 0 then b + (k ! (i + d + 1) - x) * prev ! (i + 1) / bottom else b)
      in b)
    [0..<length k - d - 1]"

text \<open>The rows up to order \<open>d\<close>; \<open>basis[-1]\<close> after the loop is the row of order \<open>degree\<close>.\<close>

definition rows_upto :: "bspline_basis \<Rightarrow> real \<Rightarrow> nat \<Rightarrow> real list" where
  "rows_upto Bl x d = fold (\<lambda>d prev. basis_step (knots Bl) x d prev) [1..<d + 1] (basis0 Bl x)"

definition basis_rows :: "bspline_basis \<Rightarrow> real \<Rightarrow> real list" where
  "basis_rows Bl x = rows_upto Bl x (degree Bl)"

definition evalspline :: "bspline \<Rightarrow> real \<Rightarrow> error + real" where
  "evalspline s x =
     (let Bl = basis s; top = basis_rows Bl x in
      if length (coeffs s) < len_basis Bl then Inl IndexError
      else Inr (fold (\<lambda>l result. result + coeffs s ! l * top ! l) [0..<len_basis Bl] 0))"


section \<open>The recursion of \<open>evalspline\<close> as a function of the index\<close>

text \<open>
  \<open>cdb k x f d i\<close> is entry \<open>i\<close> of the row of order \<open>d\<close> that the loops of \<open>evalspline\<close>
  build over the knots \<open>k\<close> from the order-0 entries \<open>f\<close>. A term whose denominator
  \<open>bottom\<close> is zero is left out.
\<close>

fun cdb :: "real list \<Rightarrow> real \<Rightarrow> (nat \<Rightarrow> real) \<Rightarrow> nat \<Rightarrow> nat \<Rightarrow> real" where
  "cdb k x f 0 i = f i"
| "cdb k x f (Suc d) i =
     (if k ! (i + Suc d) - k ! i \<noteq> 0
      then (x - k ! i) * cdb k x f d i / (k ! (i + Suc d) - k ! i) else 0) +
     (if k ! (i + Suc d + 1) - k ! (i + 1) \<noteq> 0
      then (k ! (i + Suc d + 1) - x) * cdb k x f d (i + 1) / (k ! (i + Suc d + 1) - k ! (i + 1))
      else 0)"

text \<open>The indicator of the half-open interval \<open>(k[i], k[i+1]]\<close>.\<close>

definition hind :: "real list \<Rightarrow> real \<Rightarrow> nat \<Rightarrow> real" where
  "hind k x i = of_bool (k ! i < x) * of_bool (x \<le> k ! (i + 1))"

section \<open>Dense matrices and Python slices\<close>

text \<open>
  A numpy matrix is the list of its rows. \<open>zeros\<close>, \<open>eye\<close> and \<open>dot\<close> are \<open>np.zeros\<close>,
  \<open>np.eye\<close> and \<open>ndarray.dot\<close>; \<open>set_entry M i j v\<close> is the assignment \<open>M[i, j] = v\<close>
  at an index inside the matrix.
\<close>

type_synonym matrix = "real list list"

definition zeros :: "nat \<Rightarrow> nat \<Rightarrow> matrix" where
  "zeros r c = replicate r (replicate c 0)"

definition eye :: "nat \<Rightarrow> matrix" where
  "eye n = map (\<lambda>i. map (\<lambda>j. if i = j then 1 else 0) [0..<n]) [0..<n]"

definition set_entry :: "matrix \<Rightarrow> nat \<Rightarrow> nat \<Rightarrow> real \<Rightarrow> matrix" where
  "set_entry M i j v = M[i := (M ! i)[j := v]]"

definition ncols :: "matrix \<Rightarrow> nat" where
  "ncols M = (case M of [] \<Rightarrow> 0 | r # _ \<Rightarrow> length r)"

definition dot :: "matrix \<Rightarrow> matrix \<Rightarrow> matrix" where
  "dot A B = map (\<lambda>row. map (\<lambda>j. \<Sum>l\<leftarrow>[0..<length B]. row ! l * B ! l ! j) [0..<ncols B]) A"

text \<open>The product of a matrix and a coefficient vector.\<close>

definition matvec :: "matrix \<Rightarrow> real list \<Rightarrow> real list" where
  "matvec A c = map (\<lambda>row. \<Sum>l\<leftarrow>[0..<length c]. row ! l * c ! l) A"

text \<open>
  A Python slice \<open>xs[a:b]\<close> with integer bounds: a negative bound counts from the end,
  and both bounds are clipped to the list.
\<close>

definition clip :: "int \<Rightarrow> nat \<Rightarrow> nat" where
  "clip i n = (if i < 0 then nat (max 0 (int n + i)) else min (nat i) n)"

definition slice :: "int \<Rightarrow> int \<Rightarrow> 'a list \<Rightarrow> 'a list" where
  "slice a b xs = (let lo = clip a (length xs); hi = clip b (length xs) in take (hi - lo) (drop lo xs))"

text \<open>
  \<open>np.searchsorted\<close> on a sorted array: with \<open>side='left'\<close> the number of entries below
  the value, with \<open>side='right'\<close> the number of entries not above it.
\<close>

definition searchsorted_left :: "real list \<Rightarrow> real \<Rightarrow> nat" where
  "searchsorted_left xs v = length (filter (\<lambda>k. k < v) xs)"

definition searchsorted_right :: "real list \<Rightarrow> real \<Rightarrow> nat" where
  "searchsorted_right xs v = length (filter (\<lambda>k. k \<le> v) xs)"

section \<open>Knot insertion: \<open>knot_insertion_T\<close>\<close>

text \<open>The weight \<open>w\<close> of row \<open>j\<close>, with the source's three branches in their order.\<close>

definition insertion_weight :: "real list \<Rightarrow> nat \<Rightarrow> real \<Rightarrow> nat \<Rightarrow> real" where
  "insertion_weight kts deg knot j =
     (if knot \<le> kts ! j then 0
      else if kts ! j < knot \<and> knot < kts ! (j + deg + 1 - 1)
      then (knot - kts ! j) / (kts ! (j + deg + 1 - 1) - kts ! j)
      else 1)"

text \<open>The body of the loop over \<open>j\<close>: the two assignments into \<open>_T\<close>.\<close>

definition insertion_body :: "real list \<Rightarrow> nat \<Rightarrow> nat \<Rightarrow> real \<Rightarrow> nat \<Rightarrow> matrix \<Rightarrow> matrix" where
  "insertion_body kts deg N knot j T' =
     (let w = insertion_weight kts deg knot j;
          T' = (if j \<noteq> 0 then set_entry T' j (j - 1) (1 - w) else T');
          T' = (if j \<noteq> N then set_entry T' j j w else T')
      in T')"

text \<open>The incremental matrix \<open>_T\<close> of one inserted knot.\<close>

definition insertion_matrix :: "real list \<Rightarrow> nat \<Rightarrow> nat \<Rightarrow> real \<Rightarrow> matrix" where
  "insertion_matrix kts deg N knot =
     fold (insertion_body kts deg N knot) [0..<N + 1] (zeros (N + 1) N)"

text \<open>The loop over \<open>knots_to_insert\<close>, threading \<open>N\<close>, \<open>T\<close> and \<open>knots\<close>.\<close>

fun insertion_loop :: "nat \<Rightarrow> real list \<Rightarrow> nat \<Rightarrow> matrix \<Rightarrow> real list \<Rightarrow> matrix \<times> real list" where
  "insertion_loop deg [] N T kts = (T, kts)"
| "insertion_loop deg (knot # rest) N T kts =
     insertion_loop deg rest (N + 1) (dot (insertion_matrix kts deg N knot) T)
       (sort (kts @ [knot]))"

text \<open>
  \<open>knots_to_insert\<close> is a list here (the source wraps a single value into one).
  \<open>np.eye(N)\<close> raises \<open>ValueError\<close> for a negative \<open>N = len(basis)\<close>.
\<close>

definition knot_insertion_T :: "bspline_basis \<Rightarrow> real list \<Rightarrow> error + matrix \<times> real list" where
  "knot_insertion_T b knots_to_insert =
     (if length (knots b) < degree b + 1 then Inl ValueError
      else Inr (insertion_loop (degree b) knots_to_insert (len_basis b) (eye (len_basis b)) (knots b)))"

section \<open>Cropping: \<open>crop_T\<close> and \<open>crop\<close>\<close>

definition crop_T :: "bspline_basis \<Rightarrow> real \<Rightarrow> real \<Rightarrow> error + matrix \<times> real list" where
  "crop_T b min_value max_value =
     (let n_min = length (filter (\<lambda>k. k = min_value) (knots b));
          n_max = length (filter (\<lambda>k. k = max_value) (knots b));
          min_knots = replicate (degree b + 1 - n_min) min_value;
          max_knots = replicate (degree b + 1 - n_max) max_value
      in case knot_insertion_T b (min_knots @ max_knots) of
           Inl e \<Rightarrow> Inl e
         | Inr (T, knots2) \<Rightarrow>
             let jmin = searchsorted_left knots2 min_value;
                 jmax = searchsorted_right knots2 max_value
             in Inr (slice (int jmin) (int jmax - int (degree b) - 1) T,
                     slice (int jmin) (int jmax) knots2))"

text \<open>
  \<open>T\<close> has \<open>len(basis)\<close> columns, so \<open>T.dot(coeffs)\<close> raises \<open>ValueError\<close> for a
  coefficient array of another length.
\<close>

definition apply_T :: "matrix \<times> real list \<Rightarrow> bspline \<Rightarrow> error + bspline" where
  "apply_T Tk s =
     (if length (coeffs s) \<noteq> len_basis (basis s) then Inl ValueError
      else Inr \<lparr>basis = \<lparr>knots = snd Tk, degree = degree (basis s)\<rparr>,
                coeffs = matvec (fst Tk) (coeffs s)\<rparr>)"

definition crop :: "bspline \<Rightarrow> real \<Rightarrow> real \<Rightarrow> error + bspline" where
  "crop s min_value max_value =
     (case crop_T (basis s) min_value max_value of
        Inl e \<Rightarrow> Inl e
      | Inr Tk \<Rightarrow> apply_T Tk s)"

section \<open>Integration: \<open>running_integral\<close>\<close>

text \<open>
  \<open>knots[0]\<close> and \<open>knots[-1]\<close> raise \<open>IndexError\<close> on an empty knot array, and so does
  \<open>coeffs[i]\<close> in the loop when there are fewer coefficients than iterations.
\<close>

definition running_integral :: "bspline \<Rightarrow> error + bspline" where
  "running_integral spline =
     (let b = basis spline; cs = coeffs spline; kts = knots b; deg = degree b in
      if kts = [] then Inl IndexError
      else
        let knots_int = [kts ! 0] @ kts @ [last kts];
            degree_int = deg + 1;
            basis_int = \<lparr>knots = knots_int, degree = degree_int\<rparr>
        in if length cs < len_basis basis_int - 1 then Inl IndexError
           else Inr \<lparr>basis = basis_int,
                     coeffs = fold (\<lambda>i coeffs_int. coeffs_int @
                         [coeffs_int ! i + (kts ! (deg + i + 1) - kts ! i) / real degree_int * cs ! i])
                       [0..<len_basis basis_int - 1] [0]\<rparr>)"

section \<open>Concatenation: \<open>concat_splines\<close>\<close>




section \<open>Shifting the first knots: \<open>shiftfirstknot_T\<close>\<close>

text \<open>
  The numeric branch (\<open>typ = np\<close>). \<open>shift_t\<close> is the matrix \<open>_t\<close> of pass \<open>k\<close>, of shape
  \<open>(deg + 1 + k + 1, deg + 1 + k)\<close>; \<open>shift_block\<close> is \<open>_T\<close> after the loop over \<open>k\<close>.
\<close>

definition shift_t_body :: "real list \<Rightarrow> nat \<Rightarrow> real \<Rightarrow> nat \<Rightarrow> nat \<Rightarrow> matrix \<Rightarrow> matrix" where
  "shift_t_body kts deg t_shift k j t' =
     (if j \<ge> deg + 1 then set_entry t' j (j - 1) 1
      else if j \<le> k then set_entry t' j j 1
      else
        let t' = set_entry t' j (j - 1)
                   ((kts ! (j + deg - k) - t_shift) / (kts ! (j + deg - k) - kts ! j))
        in set_entry t' j j ((t_shift - kts ! j) / (kts ! (j + deg - k) - kts ! j)))"

definition shift_t :: "real list \<Rightarrow> nat \<Rightarrow> real \<Rightarrow> nat \<Rightarrow> matrix" where
  "shift_t kts deg t_shift k =
     fold (shift_t_body kts deg t_shift k) [0..<deg + 1 + k + 1] (zeros (deg + 1 + k + 1) (deg + 1 + k))"

definition shift_block :: "real list \<Rightarrow> nat \<Rightarrow> real \<Rightarrow> matrix" where
  "shift_block kts deg t_shift =
     fold (\<lambda>k T'. dot (shift_t kts deg t_shift k) T') [0..<deg + 1] (eye (deg + 1))"

text \<open>\<open>T = eye(N); T[:deg+1, :deg+1] = _T[deg+1:, :]\<close>, for \<open>N \<ge> deg + 1\<close>.\<close>

definition shift_T :: "real list \<Rightarrow> nat \<Rightarrow> nat \<Rightarrow> real \<Rightarrow> matrix" where
  "shift_T kts deg N t_shift =
     map (\<lambda>i. map (\<lambda>j. if i < deg + 1 \<and> j < deg + 1
                         then shift_block kts deg t_shift ! (deg + 1 + i) ! j
                         else eye N ! i ! j) [0..<N]) [0..<N]"

text \<open>
  The back-substitution. The loop over \<open>j\<close> runs from \<open>deg\<close> down to \<open>i + 1\<close>, the sum
  over \<open>k\<close> from \<open>i + 1\<close> to \<open>deg + 1\<close> inclusive.
\<close>

definition inv_inner :: "matrix \<Rightarrow> nat \<Rightarrow> nat \<Rightarrow> nat \<Rightarrow> matrix \<Rightarrow> matrix" where
  "inv_inner T deg i j Tinv =
     set_entry Tinv i j
       ((- 1 / T ! i ! i) * (\<Sum>k\<leftarrow>[i + 1..<deg + 2]. T ! i ! k * Tinv ! k ! j))"

definition inv_outer :: "matrix \<Rightarrow> nat \<Rightarrow> nat \<Rightarrow> matrix \<Rightarrow> matrix" where
  "inv_outer T deg i Tinv =
     fold (inv_inner T deg i) (rev [i + 1..<deg + 1]) (set_entry Tinv i i (1 / T ! i ! i))"

definition shift_Tinv :: "matrix \<Rightarrow> nat \<Rightarrow> nat \<Rightarrow> matrix" where
  "shift_Tinv T deg N = fold (inv_outer T deg) (rev [0..<deg + 1]) (eye N)"

text \<open>
  The denominators \<open>knots[j+deg-k] - knots[j]\<close> of the passes, and the diagonal entries
  \<open>T[i, i]\<close> of the back-substitution. Where one of them is zero, numpy divides to \<open>inf\<close> or
  \<open>nan\<close> and raises nothing; these values are not real numbers, and the model has no
  result for such a call.
\<close>

definition shift_finite :: "real list \<Rightarrow> nat \<Rightarrow> bool" where
  "shift_finite kts deg =
     list_all (\<lambda>k. list_all (\<lambda>j. kts ! (j + deg - k) - kts ! j \<noteq> 0) [k + 1..<deg + 1]) [0..<deg + 1]"

definition inv_finite :: "matrix \<Rightarrow> nat \<Rightarrow> bool" where
  "inv_finite T deg = list_all (\<lambda>i. T ! i ! i \<noteq> 0) [0..<deg + 1]"

text \<open>
  The exceptions of the numeric branch: \<open>knots[j+deg-k]\<close> reaches index \<open>2 * deg\<close> when
  \<open>deg \<ge> 1\<close>; \<open>np.eye(N)\<close> needs \<open>N \<ge> 0\<close> and the block assignment needs \<open>N \<ge> deg + 1\<close>;
  with \<open>inverse\<close> set and \<open>deg \<ge> 1\<close>, the sum over \<open>k\<close> reads \<open>T[i, deg+1]\<close>, which is outside
  an \<open>N \<times> N\<close> matrix when \<open>N = deg + 1\<close>. The result is \<open>Some\<close> of an exception or of the
  pair of \<open>T\<close> and, with \<open>inverse\<close> set, \<open>Tinv\<close>; it is \<open>None\<close> where the model has no result.
\<close>

definition shiftfirstknot_T :: "bspline_basis \<Rightarrow> real \<Rightarrow> bool \<Rightarrow>
    (error + matrix \<times> matrix option) option" where
  "shiftfirstknot_T b t_shift with_inverse =
     (let kts = knots b; deg = degree b; N = len_basis b in
      if deg \<ge> 1 \<and> length kts \<le> 2 * deg then Some (Inl IndexError)
      else if length kts < 2 * deg + 2 then Some (Inl ValueError)
      else
        let T = shift_T kts deg N t_shift in
        if with_inverse then
          (if deg \<ge> 1 \<and> N < deg + 2 then Some (Inl IndexError)
           else if shift_finite kts deg \<and> inv_finite T deg
           then Some (Inr (T, Some (shift_Tinv T deg N)))
           else None)
        else if shift_finite kts deg then Some (Inr (T, None)) else None)"

section \<open>Extrapolation: \<open>extrapolate_T\<close>\<close>



text \<open>
  The block assignments \<open>M[r0:r0+len(S), c0:c0+len(S[0])] = S\<close> used below, for a source
  \<open>S\<close> that fits into \<open>M\<close> at that place, and the assignment of a row.
\<close>

definition set_block :: "matrix \<Rightarrow> nat \<Rightarrow> nat \<Rightarrow> matrix \<Rightarrow> matrix" where
  "set_block M r0 c0 S =
     map (\<lambda>r. map (\<lambda>c. if r0 \<le> r \<and> r < r0 + length S \<and> c0 \<le> c \<and> c < c0 + ncols S
                        then S ! (r - r0) ! (c - c0) else M ! r ! c)
                  [0..<length (M ! r)])
         [0..<length M]"











section \<open>Shifting over one knot interval: \<open>shiftoverknot_T\<close>\<close>





section \<open>Auxiliary: the rows of the incremental matrix\<close>

text \<open>Row \<open>j\<close> of \<open>_T\<close> after the loop over \<open>j\<close>, as the update of a row of zeros.\<close>

definition row_update :: "real list \<Rightarrow> nat \<Rightarrow> nat \<Rightarrow> real \<Rightarrow> nat \<Rightarrow> real list \<Rightarrow> real list" where
  "row_update kts deg N knot j r0 =
     (let w = insertion_weight kts deg knot j;
          r = (if j \<noteq> 0 then r0[j - 1 := 1 - w] else r0)
      in if j \<noteq> N then r[j := w] else r)"

definition insertion_row :: "real list \<Rightarrow> nat \<Rightarrow> nat \<Rightarrow> real \<Rightarrow> nat \<Rightarrow> real list" where
  "insertion_row kts deg N knot j = row_update kts deg N knot j (replicate N 0)"

section \<open>Auxiliary: the joined knot vector and coefficients of one dimension\<close>



section \<open>Auxiliary: the insertion weight as a function of the knot values\<close>

text \<open>
  \<open>wt z a c\<close> is the weight \<open>w\<close> of \<open>knot_insertion_T\<close> for the inserted knot \<open>z\<close>, with
  \<open>a = knots[j]\<close> and \<open>c = knots[j + degree]\<close>.
\<close>

definition wt :: "real \<Rightarrow> real \<Rightarrow> real \<Rightarrow> real" where
  "wt z a c = (if z \<le> a then 0 else if z < c then (z - a) / (c - a) else 1)"

section \<open>Instances of the numerical parameters for the degrees 1 and 2\<close>









section \<open>Auxiliary: the order-0 entries closed on the left\<close>

text \<open>
  The indicator of \<open>[k[i], k[i+1])\<close>. With these entries the recursion gives the value
  from the right at a knot, as \<open>evalspline\<close> does at the first knot; with \<open>hind\<close> it gives
  the value from the left.
\<close>

definition rind :: "real list \<Rightarrow> real \<Rightarrow> nat \<Rightarrow> real" where
  "rind k x i = of_bool (k ! i \<le> x) * of_bool (x < k ! (i + 1))"

section \<open>Auxiliary: the derivative of an entry of the recursion\<close>

text \<open>
  The derivative with respect to \<open>x\<close> of the entry \<open>i\<close> of order \<open>d\<close> built from the half-open
  indicators, at a point that is not a knot: \<open>d\<close> times the difference of the two entries
  of order \<open>d - 1\<close>, each divided by the width of its knot span (a term with a span of
  width zero is left out).
\<close>

definition dcdb :: "real list \<Rightarrow> real \<Rightarrow> nat \<Rightarrow> nat \<Rightarrow> real" where
  "dcdb k x d i =
     (case d of 0 \<Rightarrow> 0
      | Suc e \<Rightarrow> real d * (cdb k x (hind k x) e i / (k ! (i + d) - k ! i)
                         - cdb k x (hind k x) e (i + 1) / (k ! (i + d + 1) - k ! (i + 1))))"

section \<open>The rows of \<open>evalspline\<close> are the recursion\<close>

lemma rows_upto_0: "rows_upto Bl x 0 = basis0 Bl x"
  by (simp add: rows_upto_def)

lemma rows_upto_Suc:
  "rows_upto Bl x (Suc d) = basis_step (knots Bl) x (Suc d) (rows_upto Bl x d)"
  by (simp add: rows_upto_def)

lemma rows_upto_cdb:
  "rows_upto Bl x d = map (cdb (knots Bl) x (ind0 Bl x) d) [0..<length (knots Bl) - d - 1]"
proof (induction d)
  case 0
  show ?case by (simp add: rows_upto_0 basis0_def)
next
  case (Suc d)
  show ?case
    unfolding rows_upto_Suc Suc.IH basis_step_def
    by (rule map_cong[OF refl]) (simp add: Let_def)
qed

lemma fold_plus_sum:
  "fold (\<lambda>l (r::real). r + g l) xs a = a + sum_list (map g xs)"
  by (induction xs arbitrary: a) simp_all

lemma evalspline_sum:
  assumes "len_basis (basis s) \<le> length (coeffs s)"
  shows "evalspline s x =
    Inr (\<Sum>l<len_basis (basis s).
           coeffs s ! l * cdb (knots (basis s)) x (ind0 (basis s) x) (degree (basis s)) l)"
proof -
  have "(\<Sum>l\<leftarrow>[0..<len_basis (basis s)]. coeffs s ! l * basis_rows (basis s) x ! l)
      = (\<Sum>l\<leftarrow>[0..<len_basis (basis s)].
           coeffs s ! l * cdb (knots (basis s)) x (ind0 (basis s) x) (degree (basis s)) l)"
    by (rule arg_cong[where f=sum_list], rule map_cong[OF refl])
       (simp add: basis_rows_def rows_upto_cdb len_basis_def)
  then show ?thesis using assms
    by (simp add: evalspline_def Let_def fold_plus_sum atLeast0LessThan
        interv_sum_list_conv_sum_set_nat)
qed

text \<open>An entry of order \<open>d\<close> reads the order-0 entries \<open>i, ..., i + d\<close> only.\<close>

lemma cdb_cong:
  "(\<And>j. i \<le> j \<Longrightarrow> j \<le> i + d \<Longrightarrow> f j = g j) \<Longrightarrow> cdb k x f d i = cdb k x g d i"
proof (induction d arbitrary: i)
  case 0
  then show ?case by simp
next
  case (Suc d)
  have "cdb k x f d i = cdb k x g d i" "cdb k x f d (i + 1) = cdb k x g d (i + 1)"
    by (rule Suc.IH, rule Suc.prems, simp_all)+
  then show ?case by simp
qed

lemma cdb_zero:
  "(\<And>j. i \<le> j \<Longrightarrow> j \<le> i + d \<Longrightarrow> f j = 0) \<Longrightarrow> cdb k x f d i = 0"
proof (induction d arbitrary: i)
  case 0
  then show ?case by simp
next
  case (Suc d)
  have "cdb k x f d i = 0" "cdb k x f d (i + 1) = 0"
    by (rule Suc.IH, rule Suc.prems, simp_all)+
  then show ?case by simp
qed

text \<open>Away from the first knot, the order-0 entries are the half-open indicators.\<close>

lemma ind0_hind: "x \<noteq> knots Bl ! 0 \<Longrightarrow> ind0 Bl x i = hind (knots Bl) x i"
  by (auto simp: ind0_def hind_def)

lemma hind_outside:
  assumes "sorted k" "i + 1 < length k" "x < k ! 0 \<or> last k < x"
  shows "hind k x i = 0"
proof -
  have "k ! 0 \<le> k ! i" using assms(1,2) by (simp add: sorted_nth_mono)
  moreover have "k ! (i + 1) \<le> k ! (length k - 1)"
    using assms(1,2) by (intro sorted_nth_mono) simp_all
  moreover have "last k = k ! (length k - 1)"
    using assms(2) by (intro last_conv_nth) auto
  ultimately show ?thesis using assms(3) by (auto simp: hind_def)
qed

section \<open>Evaluation outside the knot range\<close>

text \<open>
  C10. For a spline over a non-decreasing knot vector with at least as many coefficients
  as basis functions, and a point strictly below the first knot or strictly above the
  last knot, \<open>evalspline\<close> raises nothing and returns 0, whatever the coefficients are.
\<close>

theorem evalspline_outside_zero:
  assumes "sorted (knots (basis s))" and "knots (basis s) \<noteq> []"
    and "len_basis (basis s) \<le> length (coeffs s)"
    and "x < knots (basis s) ! 0 \<or> last (knots (basis s)) < x"
  shows "evalspline s x = Inr 0"
proof -
  let ?k = "knots (basis s)"
  have "?k ! 0 \<le> last ?k"
    using assms(1,2) by (simp add: last_conv_nth sorted_nth_mono)
  then have ne: "x \<noteq> ?k ! 0" using assms(4) by auto
  have "cdb ?k x (ind0 (basis s) x) (degree (basis s)) l = 0" if "l < len_basis (basis s)" for l
  proof (rule cdb_zero)
    fix j assume "l \<le> j" "j \<le> l + degree (basis s)"
    then have "j + 1 < length ?k" using that by (simp add: len_basis_def)
    then show "ind0 (basis s) x j = 0"
      using ne assms(1,4) by (simp add: ind0_hind hind_outside)
  qed
  then show ?thesis by (simp add: evalspline_sum[OF assms(3)])
qed

theorem evalspline_outside_zero_witness:
  "evalspline \<lparr>basis = \<lparr>knots = [0, 0, 1, 2, 2], degree = 1\<rparr>, coeffs = [5, 7, 9]\<rparr> 3 = Inr 0
   \<and> evalspline \<lparr>basis = \<lparr>knots = [0, 0, 1, 2, 2], degree = 1\<rparr>, coeffs = [5, 7, 9]\<rparr> (- 1) = Inr 0"
  using evalspline_outside_zero[of "\<lparr>basis = \<lparr>knots = [0, 0, 1, 2, 2], degree = 1\<rparr>, coeffs = [5, 7, 9]\<rparr>" 3]
    evalspline_outside_zero[of "\<lparr>basis = \<lparr>knots = [0, 0, 1, 2, 2], degree = 1\<rparr>, coeffs = [5, 7, 9]\<rparr>" "- 1"]
  by (simp add: len_basis_def)

section \<open>Support and partition of unity of the half-open recursion\<close>

lemma cdb_Suc_div:
  "cdb k x f (Suc d) i =
     (x - k ! i) * cdb k x f d i / (k ! (i + Suc d) - k ! i) +
     (k ! (i + Suc d + 1) - x) * cdb k x f d (i + 1) / (k ! (i + Suc d + 1) - k ! (i + 1))"
  by simp

declare cdb.simps(2) [simp del]

lemma sum_Suc_shift:
  fixes h :: "nat \<Rightarrow> real"
  shows "(\<Sum>i<m. h (Suc i)) = (\<Sum>i<Suc m. h i) - h 0"
  by (subst sum.lessThan_Suc_shift) simp

lemma hind_sum:
  assumes "sorted k" "m < length k"
  shows "(\<Sum>i<m. hind k x i) = of_bool (k ! 0 < x \<and> x \<le> k ! m)"
  using assms(2)
proof (induction m)
  case 0
  then show ?case by simp
next
  case (Suc m)
  have "k ! 0 \<le> k ! m" "k ! m \<le> k ! Suc m"
    using assms(1) Suc.prems by (simp_all add: sorted_nth_mono)
  then show ?case using Suc by (auto simp: hind_def)
qed

lemma cdb_support:
  assumes "sorted k"
  shows "i + d + 1 < length k \<Longrightarrow> cdb k x (hind k x) d i \<noteq> 0 \<Longrightarrow> k ! i < x \<and> x \<le> k ! (i + d + 1)"
proof (induction d arbitrary: i)
  case 0
  then show ?case by (auto simp: hind_def split: if_splits)
next
  case (Suc d)
  have m: "k ! i \<le> k ! (i + 1)" "k ! (i + d + 1) \<le> k ! (i + Suc d + 1)"
    using assms Suc.prems(1) by (simp_all add: sorted_nth_mono)
  from Suc.prems(2) have "cdb k x (hind k x) d i \<noteq> 0 \<or> cdb k x (hind k x) d (i + 1) \<noteq> 0"
    by (auto simp: cdb_Suc_div)
  then show ?case
  proof
    assume "cdb k x (hind k x) d i \<noteq> 0"
    from Suc.IH[OF _ this] Suc.prems(1) m show ?thesis by auto
  next
    assume "cdb k x (hind k x) d (i + 1) \<noteq> 0"
    from Suc.IH[OF _ this] Suc.prems(1) m show ?thesis by auto
  qed
qed

lemma cdb_partition:
  assumes "sorted k"
  shows "2 * e + 2 \<le> length k \<Longrightarrow> k ! e < x \<Longrightarrow> x \<le> k ! (length k - 1 - e) \<Longrightarrow>
    (\<Sum>i<length k - e - 1. cdb k x (hind k x) e i) = 1"
proof (induction e)
  case 0
  then show ?case using hind_sum[OF assms, of "length k - 1" x] by simp
next
  case (Suc e)
  let ?n = "length k"
  let ?B = "cdb k x (hind k x) e"
  let ?m = "?n - e - 2"
  define A where "A i = (x - k ! i) / (k ! (i + Suc e) - k ! i)" for i
  define g where "g i = A i * ?B i" for i
  have le: "k ! e \<le> k ! Suc e" "k ! (?n - 1 - Suc e) \<le> k ! (?n - 1 - e)"
    using assms Suc.prems(1) by (simp_all add: sorted_nth_mono)
  have IH: "(\<Sum>i<?n - e - 1. ?B i) = 1"
    using Suc.IH Suc.prems le by simp
  have B0: "?B 0 = 0"
    using cdb_support[OF assms, of 0 e x] Suc.prems by auto
  have Bm: "?B ?m = 0"
  proof (rule ccontr)
    assume "?B ?m \<noteq> 0"
    then have "k ! ?m < x" using cdb_support[OF assms, of ?m e x] Suc.prems(1) by auto
    moreover have "?n - 1 - Suc e = ?m" by simp
    ultimately show False using Suc.prems(3) by simp
  qed
  have step: "cdb k x (hind k x) (Suc e) i = g i + (?B (i + 1) - g (i + 1))" if "i < ?m" for i
  proof -
    have "(k ! (i + Suc e + 1) - x) * ?B (i + 1) / (k ! (i + Suc e + 1) - k ! (i + 1))
        = ?B (i + 1) - g (i + 1)"
    proof (cases "k ! (i + Suc e + 1) = k ! (i + 1)")
      case True
      have "i + 1 + e + 1 < length k" using that by simp
      have "?B (i + 1) = 0"
      proof (rule ccontr)
        assume "?B (i + 1) \<noteq> 0"
        from cdb_support[OF assms \<open>i + 1 + e + 1 < length k\<close> this]
        have "k ! (i + 1) < k ! (i + 1 + e + 1)" by simp
        moreover have "i + 1 + e + 1 = i + Suc e + 1" by simp
        ultimately show False using True by (metis less_irrefl)
      qed
      then show ?thesis by (simp add: g_def)
    next
      case False
      then show ?thesis by (simp add: g_def A_def field_simps)
    qed
    moreover have "(x - k ! i) * ?B i / (k ! (i + Suc e) - k ! i) = g i"
      by (simp add: g_def A_def)
    ultimately show ?thesis by (simp only: cdb_Suc_div)
  qed
  have "(\<Sum>i<?n - Suc e - 1. cdb k x (hind k x) (Suc e) i) = (\<Sum>i<?m. g i + (?B (i + 1) - g (i + 1)))"
    by (rule sum.cong) (simp_all add: step)
  also have "\<dots> = (\<Sum>i<?m. g i) + ((\<Sum>i<?m. ?B (Suc i)) - (\<Sum>i<?m. g (Suc i)))"
    by (simp add: sum.distrib sum_subtractf)
  also have "(\<Sum>i<?m. ?B (Suc i)) = (\<Sum>i<Suc ?m. ?B i) - ?B 0"
    by (rule sum_Suc_shift)
  also have "(\<Sum>i<?m. g (Suc i)) = (\<Sum>i<?m. g i) + g ?m - g 0"
    by (simp only: sum_Suc_shift sum.lessThan_Suc)
  also have "Suc ?m = ?n - e - 1" using Suc.prems(1) by simp
  finally have "(\<Sum>i<?n - Suc e - 1. cdb k x (hind k x) (Suc e) i)
      = (\<Sum>i<?m. g i) + ((\<Sum>i<?n - e - 1. ?B i) - ?B 0 - ((\<Sum>i<?m. g i) + g ?m - g 0))" .
  also have "\<dots> = 1" unfolding IH g_def B0 Bm by simp
  finally show ?case .
qed


subsection \<open>Partition of unity of \<open>evalspline\<close>\<close>

text \<open>
  C8 (as stated). On the unclamped basis with knots \<open>[0, 1, 2, 3]\<close> and degree 1 the two
  basis values at \<open>x = 1/2\<close>, a point strictly inside the knot range, sum to \<open>1/2\<close>.
\<close>

theorem partition_of_unity_counterexample:
  "sorted [0, 1, 2, 3 :: real] \<and> length [0, 1, 2, 3 :: real] = 2 + 1 + 1
   \<and> [0, 1, 2, 3] ! 0 < (1/2 :: real) \<and> (1/2 :: real) < last [0, 1, 2, 3]
   \<and> sum_list (basis_rows \<lparr>knots = [0, 1, 2, 3], degree = 1\<rparr> (1/2)) \<noteq> 1
   \<and> evalspline \<lparr>basis = \<lparr>knots = [0, 1, 2, 3], degree = 1\<rparr>, coeffs = [1, 1]\<rparr> (1/2) = Inr (1/2)"
  by code_simp

text \<open>
  C8 (amended). For a non-decreasing knot vector with at least \<open>2 * (degree + 1)\<close> knots and
  every \<open>x\<close> with \<open>knots[degree] < x \<le> knots[N]\<close>, where \<open>N = len(knots) - degree - 1\<close>, the
  basis values of order \<open>degree\<close> sum to 1 and the spline with all coefficients 1 evaluates
  to 1. For a clamped basis this range is \<open>(knots[0], knots[-1]]\<close>.
\<close>

theorem partition_of_unity:
  assumes "sorted (knots Bl)" and "2 * (degree Bl + 1) \<le> length (knots Bl)"
    and "knots Bl ! degree Bl < x" and "x \<le> knots Bl ! (length (knots Bl) - 1 - degree Bl)"
  shows "sum_list (basis_rows Bl x) = 1
    \<and> evalspline \<lparr>basis = Bl, coeffs = replicate (len_basis Bl) 1\<rparr> x = Inr 1"
proof -
  let ?k = "knots Bl"
  have "?k ! 0 \<le> ?k ! degree Bl" using assms(1,2) by (simp add: sorted_nth_mono)
  then have ne: "x \<noteq> ?k ! 0" using assms(3) by simp
  have f: "ind0 Bl x = hind ?k x" using ne by (auto simp: ind0_hind)
  have one: "(\<Sum>i<length ?k - degree Bl - 1. cdb ?k x (hind ?k x) (degree Bl) i) = 1"
    using cdb_partition[OF assms(1), of "degree Bl" x] assms(2,3,4) by simp
  have "sum_list (basis_rows Bl x) = 1"
    using one by (simp add: basis_rows_def rows_upto_cdb f interv_sum_list_conv_sum_set_nat
        atLeast0LessThan)
  moreover have "evalspline \<lparr>basis = Bl, coeffs = replicate (len_basis Bl) 1\<rparr> x = Inr 1"
    using one by (simp add: evalspline_sum f len_basis_def)
  ultimately show ?thesis by simp
qed

theorem partition_of_unity_witness:
  "sum_list (basis_rows \<lparr>knots = [0, 0, 1, 2, 2], degree = 1\<rparr> (3/2)) = 1
   \<and> evalspline \<lparr>basis = \<lparr>knots = [0, 0, 1, 2, 2], degree = 1\<rparr>, coeffs = [1, 1, 1]\<rparr> (3/2) = Inr 1"
  using partition_of_unity[of "\<lparr>knots = [0, 0, 1, 2, 2], degree = 1\<rparr>" "3/2"]
  by (simp add: len_basis_def numeral_3_eq_3)

section \<open>The incremental matrix of knot insertion\<close>

lemma length_zeros [simp]: "length (zeros r c) = r"
  by (simp add: zeros_def)

lemma zeros_nth [simp]: "j < r \<Longrightarrow> zeros r c ! j = replicate c 0"
  by (simp add: zeros_def)

lemma insertion_body_row:
  assumes "j < length M"
  shows "insertion_body kts deg N knot j M = M[j := row_update kts deg N knot j (M ! j)]"
  using assms by (simp add: insertion_body_def set_entry_def row_update_def Let_def)

lemma fold_insertion_body:
  assumes "length M = n"
  shows "m \<le> n \<Longrightarrow> fold (insertion_body kts deg N knot) [0..<m] M =
    map (\<lambda>j. if j < m then row_update kts deg N knot j (M ! j) else M ! j) [0..<n]"
proof (induction m)
  case 0
  then show ?case using assms map_nth[of M] by simp
next
  case (Suc m)
  let ?F = "fold (insertion_body kts deg N knot) [0..<m] M"
  have F: "?F = map (\<lambda>j. if j < m then row_update kts deg N knot j (M ! j) else M ! j) [0..<n]"
    using Suc by simp
  have len: "length ?F = n" "m < n" using F Suc.prems by simp_all
  have Fm: "?F ! m = M ! m" using Suc.prems by (simp add: F)
  have "fold (insertion_body kts deg N knot) [0..<Suc m] M = ?F[m := row_update kts deg N knot m (M ! m)]"
    using len by (simp add: insertion_body_row Fm)
  also have "\<dots> = map (\<lambda>j. if j < Suc m then row_update kts deg N knot j (M ! j) else M ! j) [0..<n]"
    using len by (auto simp: F list_eq_iff_nth_eq nth_list_update)
  finally show ?case .
qed

lemma insertion_matrix_rows:
  "insertion_matrix kts deg N knot = map (insertion_row kts deg N knot) [0..<N + 1]"
proof -
  have "fold (insertion_body kts deg N knot) [0..<N + 1] (zeros (N + 1) N) =
    map (\<lambda>j. if j < N + 1 then row_update kts deg N knot j (zeros (N + 1) N ! j)
              else zeros (N + 1) N ! j) [0..<N + 1]"
    by (rule fold_insertion_body) simp_all
  also have "\<dots> = map (insertion_row kts deg N knot) [0..<N + 1]"
    by (rule map_cong[OF refl]) (simp add: insertion_row_def del: upt_Suc)
  finally show ?thesis by (simp add: insertion_matrix_def)
qed

lemma insertion_row_nth:
  assumes "c < N"
  shows "insertion_row kts deg N knot j ! c =
    (if c = j then insertion_weight kts deg knot j
     else if c + 1 = j then 1 - insertion_weight kts deg knot j else 0)"
  using assms by (auto simp: insertion_row_def row_update_def Let_def nth_list_update)

lemma length_insertion_row [simp]: "length (insertion_row kts deg N knot j) = N"
  by (simp add: insertion_row_def row_update_def Let_def)


lemma length_dot [simp]: "length (dot A B) = length A"
  by (simp add: dot_def)

lemma length_insertion_matrix [simp]: "length (insertion_matrix kts deg N knot) = N + 1"
  by (simp add: insertion_matrix_rows)

lemma insertion_loop_rows:
  "length T = N \<Longrightarrow> length (fst (insertion_loop deg ks N T kts)) = N + length ks"
  by (induction ks arbitrary: N T kts) simp_all


lemma insertion_loop_length_knots:
  "length (snd (insertion_loop deg ks N T kts)) = length kts + length ks"
  by (induction ks arbitrary: N T kts) simp_all

lemma length_eye [simp]: "length (eye n) = n"
  by (simp add: eye_def)





section \<open>Concatenation\<close>















section \<open>Knot insertion preserves the spline\<close>

subsection \<open>The three coefficient identities of one step of the recursion\<close>

text \<open>
  The unprimed letters are old knots, the primed letters the new knots at the positions
  the recursion reads; the assumptions on the primed letters are what sorted insertion
  of \<open>z\<close> gives.
\<close>

lemma boehm_I:
  fixes a e c z x a' c' :: real
  assumes "a \<le> e" "e \<le> c"
    and "a < z \<Longrightarrow> a' = a"
    and "c < z \<Longrightarrow> c' = c" "z \<le> e \<Longrightarrow> c' = e" "e < z \<Longrightarrow> z \<le> c \<Longrightarrow> c' = z"
  shows "(x - a) / (c - a) * wt z a e = wt z a c * ((x - a') / (c' - a'))"
proof -
  consider "z \<le> a" | "a < z" "z < e" | "a < z" "e \<le> z" "z < c" | "a < z" "c \<le> z"
    by linarith
  then show ?thesis
  proof cases
    case 1
    then show ?thesis using assms(1,2) by (simp add: wt_def)
  next
    case 2
    then have "a' = a" "c' = e" "z < c" using assms by auto
    then show ?thesis using 2 by (simp add: wt_def)
  next
    case 3
    then have "a' = a" "c' = z" using assms by (cases "z = e"; auto)+
    then show ?thesis using 3 by (simp add: wt_def)
  next
    case 4
    then have "a' = a" "c' = c" using assms by (cases "z = c"; cases "z = e"; auto)+
    then show ?thesis using 4 assms(1,2) by (simp add: wt_def)
  qed
qed

lemma boehm_III:
  fixes b g e z x g' h' Bpp :: real
  assumes "b \<le> g" "g \<le> e"
    and "g < z \<Longrightarrow> g' = g" "z \<le> b \<Longrightarrow> g' = b" "b < z \<Longrightarrow> z \<le> g \<Longrightarrow> g' = z"
    and "z \<le> e \<Longrightarrow> h' = e"
    and "g' = z \<Longrightarrow> h' = z \<Longrightarrow> Bpp = 0"
  shows "(e - x) / (e - b) * (1 - wt z g e) * Bpp = (1 - wt z b e) * ((h' - x) / (h' - g')) * Bpp"
    (is "?L * Bpp = ?R * Bpp")
proof -
  consider "z \<le> b" | "b < z" "z \<le> g" "z < e" | "b < z" "z \<le> g" "z = e" | "g < z" "z < e" | "g < z" "e \<le> z"
    using assms(1,2) by linarith
  then show ?thesis
  proof cases
    case 1
    then have "g' = b" "h' = e" "z \<le> g" using assms by auto
    then show ?thesis using 1 by (simp add: wt_def)
  next
    case 2
    then have "g' = z" "h' = e" using assms by auto
    moreover have "e - b \<noteq> 0" "e - z \<noteq> 0" using 2 by auto
    ultimately have "?L = ?R" using 2
      by (simp add: wt_def divide_simps, (simp add: algebra_simps)?)
    then show ?thesis by simp
  next
    case 3
    then have "g' = z" "h' = z" using assms by auto
    then have "Bpp = 0" using assms(7) by simp
    then show ?thesis by simp
  next
    case 4
    then have "g' = g" "h' = e" "b < z" using assms by auto
    moreover have "e - b \<noteq> 0" "e - g \<noteq> 0" using 4 calculation by auto
    ultimately have "?L = ?R" using 4
      by (simp add: wt_def divide_simps, (simp add: algebra_simps)?)
    then show ?thesis by simp
  next
    case 5
    then have "b < z" using assms by auto
    then show ?thesis using 5 by (simp add: wt_def)
  qed
qed

lemma boehm_II:
  fixes a b c e z x b' e' Bp :: real
  assumes "a \<le> b" "b \<le> c" "c \<le> e"
    and "b < z \<Longrightarrow> b' = b" "z \<le> a \<Longrightarrow> b' = a" "a < z \<Longrightarrow> z \<le> b \<Longrightarrow> b' = z"
    and "e < z \<Longrightarrow> e' = e" "z \<le> c \<Longrightarrow> e' = c" "c < z \<Longrightarrow> z \<le> e \<Longrightarrow> e' = z"
    and "b' = z \<Longrightarrow> e' = z \<Longrightarrow> Bp = 0"
  shows "((x - a) / (c - a) * (1 - wt z b c) + (e - x) / (e - b) * wt z b c) * Bp =
         (wt z a c * ((e' - x) / (e' - b')) + (1 - wt z b e) * ((x - b') / (e' - b'))) * Bp"
    (is "?L * Bp = ?R * Bp")
proof -
  consider "z \<le> a" | "a < z" "z \<le> b" "z < c" | "a < z" "z \<le> b" "z = c"
    | "b < z" "z < c" | "b < z" "c \<le> z" "z < e" | "b < z" "e \<le> z"
    using assms(1,2,3) by linarith
  then show ?thesis
  proof cases
    case 1
    then have "b' = a" "e' = c" "z \<le> b" "z \<le> c" "z \<le> e" using assms by auto
    then show ?thesis using 1 by (simp add: wt_def)
  next
    case 2
    then have "b' = z" "e' = c" "z < e" using assms by auto
    moreover have "c - z \<noteq> 0" "c - a \<noteq> 0" using 2 by auto
    ultimately have "?L = ?R" using 2
      by (simp add: wt_def divide_simps, (simp add: algebra_simps)?)
    then show ?thesis by simp
  next
    case 3
    then have "b' = z" "e' = z" using assms by auto
    then have "Bp = 0" using assms(10) by simp
    then show ?thesis by simp
  next
    case 4
    then have "b' = b" "e' = c" "a < z" "z < e" using assms by auto
    moreover have "c - b \<noteq> 0" "c - a \<noteq> 0" "e - b \<noteq> 0" using 4 calculation assms(1,2,3) by auto
    ultimately have "?L = ?R" using 4
      by (simp add: wt_def divide_simps, (simp add: algebra_simps)?)
    then show ?thesis by simp
  next
    case 5
    then have "b' = b" "e' = z" "a < z" using assms by (cases "z = c"; auto)+
    moreover have "z - b \<noteq> 0" "e - b \<noteq> 0" using 5 by auto
    ultimately have "?L = ?R" using 5 assms(1,2)
      by (simp add: wt_def divide_simps, (simp add: algebra_simps)?)
    then show ?thesis by simp
  next
    case 6
    then have "b' = b" "e' = e" "a < z" "c \<le> z" using assms by (cases "z = e"; cases "z = c"; auto)+
    then show ?thesis using 6 assms(1,2,3) by (simp add: wt_def)
  qed
qed

subsection \<open>Sorted insertion of one knot\<close>

lemma sort_snoc_insort:
  fixes k :: "real list"
  assumes "sorted k"
  shows "sort (k @ [z]) = insort z k"
  by (rule properties_for_sort) (simp_all add: assms sorted_insort)

lemma insort_take_drop:
  fixes k :: "real list"
  assumes "sorted k"
  shows "insort z k = take (length (filter (\<lambda>y. y < z) k)) k @ z # drop (length (filter (\<lambda>y. y < z) k)) k"
  using assms
proof (induction k)
  case Nil
  then show ?case by simp
next
  case (Cons y ys)
  show ?case
  proof (cases "z \<le> y")
    case True
    then have "filter (\<lambda>u. u < z) (y # ys) = []"
      using Cons.prems by (auto simp: filter_empty_conv)
    then show ?thesis using True by simp
  next
    case False
    then show ?thesis using Cons by simp
  qed
qed

lemma filter_less_sorted:
  fixes k :: "real list"
  assumes "sorted k" "i < length k"
  shows "i < length (filter (\<lambda>y. y < z) k) \<longleftrightarrow> k ! i < z"
  using assms
proof (induction k arbitrary: i)
  case Nil
  then show ?case by simp
next
  case (Cons y ys)
  show ?case
  proof (cases i)
    case 0
    have "filter (\<lambda>u. u < z) ys = []" if "\<not> y < z"
      using Cons.prems(1) that by (auto simp: filter_empty_conv)
    then show ?thesis using 0 by auto
  next
    case (Suc i')
    have "filter (\<lambda>u. u < z) ys = []" if "\<not> y < z"
      using Cons.prems(1) that by (auto simp: filter_empty_conv)
    moreover have "\<not> ys ! i' < z" if "\<not> y < z"
      using Cons.prems that Suc by (auto simp: dest!: nth_mem)
    ultimately show ?thesis using Suc Cons by auto
  qed
qed

text \<open>What the recursion needs to know about the new knot vector.\<close>

lemma sort_snoc_facts:
  fixes k :: "real list" and z :: real
  assumes "sorted k"
  defines "k' \<equiv> sort (k @ [z])"
  shows "i < length k \<Longrightarrow> k ! i < z \<Longrightarrow> k' ! i = k ! i"
    and "i < length k \<Longrightarrow> z \<le> k ! i \<Longrightarrow> k' ! (i + 1) = k ! i"
    and "i + 1 < length k \<Longrightarrow> k ! i < z \<Longrightarrow> z \<le> k ! (i + 1) \<Longrightarrow> k' ! (i + 1) = z"
    and "k \<noteq> [] \<Longrightarrow> z \<le> k ! 0 \<Longrightarrow> k' ! 0 = z"
    and "sorted k'" and "length k' = length k + 1"
proof -
  let ?p = "length (filter (\<lambda>y. y < z) k)"
  have k': "k' = take ?p k @ z # drop ?p k"
    unfolding k'_def sort_snoc_insort[OF assms(1)] by (rule insort_take_drop[OF assms(1)])
  have p: "?p \<le> length k" by simp
  have nth: "k' ! i = (if i < ?p then k ! i else if i = ?p then z else k ! (i - 1))" if "i \<le> length k" for i
  proof -
    have "length (take ?p k) = ?p" using p by simp
    then show ?thesis
      using that p unfolding k' by (auto simp: nth_append nth_Cons' simp del: length_take)
  qed
  show "i < length k \<Longrightarrow> k ! i < z \<Longrightarrow> k' ! i = k ! i"
    using filter_less_sorted[OF assms(1), of i z] by (simp add: nth)
  show "i < length k \<Longrightarrow> z \<le> k ! i \<Longrightarrow> k' ! (i + 1) = k ! i"
    using filter_less_sorted[OF assms(1), of i z] by (simp add: nth)
  show "i + 1 < length k \<Longrightarrow> k ! i < z \<Longrightarrow> z \<le> k ! (i + 1) \<Longrightarrow> k' ! (i + 1) = z"
    using filter_less_sorted[OF assms(1), of i z] filter_less_sorted[OF assms(1), of "i + 1" z]
    by (auto simp: nth)
  show "k \<noteq> [] \<Longrightarrow> z \<le> k ! 0 \<Longrightarrow> k' ! 0 = z"
    using filter_less_sorted[OF assms(1), of 0 z] by (simp add: nth)
  show "sorted k'" by (simp add: k'_def)
  show "length k' = length k + 1" by (simp add: k'_def)
qed


subsection \<open>The identity between the old and the new basis functions\<close>

lemma cdb_const_span:
  assumes "sorted k'" "i + d + 1 < length k'" "k' ! i = z" "k' ! (i + d + 1) = z"
    and "\<And>m. m + 1 < length k' \<Longrightarrow> k' ! m = z \<Longrightarrow> k' ! (m + 1) = z \<Longrightarrow> f' m = 0"
  shows "cdb k' x f' d i = 0"
proof (rule cdb_zero)
  fix m assume m: "i \<le> m" "m \<le> i + d"
  have "k' ! i \<le> k' ! m" "k' ! m \<le> k' ! (m + 1)" "k' ! (m + 1) \<le> k' ! (i + d + 1)"
    using assms(1,2) m by (simp_all add: sorted_nth_mono)
  then have "k' ! m = z" "k' ! (m + 1) = z" using assms(3,4) by auto
  then show "f' m = 0" using assms(5)[of m] assms(2) m by simp
qed

lemma boehm_level:
  fixes k :: "real list" and z :: real
  assumes srt: "sorted k"
  defines "k' \<equiv> sort (k @ [z])"
  assumes base: "\<And>j. j + 1 < length k \<Longrightarrow>
        f j = wt z (k ! j) (k ! j) * f' j + (1 - wt z (k ! (j + 1)) (k ! (j + 1))) * f' (j + 1)"
    and supp: "\<And>m. m + 1 < length k' \<Longrightarrow> k' ! m = z \<Longrightarrow> k' ! (m + 1) = z \<Longrightarrow> f' m = 0"
  shows "j + d + 1 < length k \<Longrightarrow>
    cdb k x f d j = wt z (k ! j) (k ! (j + d)) * cdb k' x f' d j
                  + (1 - wt z (k ! (j + 1)) (k ! (j + 1 + d))) * cdb k' x f' d (j + 1)"
proof (induction d arbitrary: j)
  case 0
  then show ?case using base[of j] by simp
next
  case (Suc d)
  note F = sort_snoc_facts[OF srt, where z = z, folded k'_def]
  let ?n = "length k"
  define a where "a = k ! j"
  define b where "b = k ! (j + 1)"
  define g where "g = k ! (j + 2)"
  define e0 where "e0 = k ! (j + d)"
  define c where "c = k ! (j + d + 1)"
  define e where "e = k ! (j + d + 2)"
  define a' where "a' = k' ! j"
  define b' where "b' = k' ! (j + 1)"
  define g' where "g' = k' ! (j + 2)"
  define c' where "c' = k' ! (j + d + 1)"
  define e' where "e' = k' ! (j + d + 2)"
  define h' where "h' = k' ! (j + d + 3)"
  define X where "X = cdb k' x f' d j"
  define Y where "Y = cdb k' x f' d (j + 1)"
  define Z where "Z = cdb k' x f' d (j + 2)"
  have n: "j + d + 2 < ?n" using Suc.prems by simp
  have ord: "a \<le> b" "b \<le> g" "a \<le> e0" "e0 \<le> c" "b \<le> c" "c \<le> e" "g \<le> e"
    unfolding a_def b_def g_def e0_def c_def e_def
    using srt n by (simp_all add: sorted_nth_mono)
  have IHj: "cdb k x f d j = wt z a e0 * X + (1 - wt z b c) * Y"
    using Suc.IH[of j] n by (simp add: a_def e0_def b_def c_def X_def Y_def add.commute add.left_commute)
  have IHj1: "cdb k x f d (j + 1) = wt z b c * Y + (1 - wt z g e) * Z"
    using Suc.IH[of "j + 1"] n
    by (simp add: b_def c_def g_def e_def Y_def Z_def add.commute add.left_commute numeral_2_eq_2)
  have lhs: "cdb k x f (Suc d) j = (x - a) * cdb k x f d j / (c - a) + (e - x) * cdb k x f d (j + 1) / (e - b)"
    by (simp add: cdb_Suc_div a_def b_def c_def e_def add.commute add.left_commute numeral_2_eq_2)
  have r1: "cdb k' x f' (Suc d) j = (x - a') * X / (c' - a') + (e' - x) * Y / (e' - b')"
    by (simp add: cdb_Suc_div a'_def b'_def c'_def e'_def X_def Y_def add.commute add.left_commute numeral_2_eq_2)
  have r2: "cdb k' x f' (Suc d) (j + 1) = (x - b') * Y / (e' - b') + (h' - x) * Z / (h' - g')"
    by (simp add: cdb_Suc_div b'_def g'_def e'_def h'_def Y_def Z_def add.commute add.left_commute
        numeral_2_eq_2 numeral_3_eq_3)
  have I: "(x - a) / (c - a) * wt z a e0 = wt z a c * ((x - a') / (c' - a'))"
  proof (rule boehm_I[OF ord(3,4)])
    show "a < z \<Longrightarrow> a' = a" unfolding a_def a'_def using F(1)[where i = j] n by simp
    show "c < z \<Longrightarrow> c' = c" unfolding c_def c'_def using F(1)[where i = "j + d + 1"] n by simp
    show "z \<le> e0 \<Longrightarrow> c' = e0" unfolding e0_def c'_def using F(2)[where i = "j + d"] n by simp
    show "e0 < z \<Longrightarrow> z \<le> c \<Longrightarrow> c' = z" unfolding e0_def c_def c'_def using F(3)[where i = "j + d"] n by simp
  qed
  have II: "((x - a) / (c - a) * (1 - wt z b c) + (e - x) / (e - b) * wt z b c) * Y =
         (wt z a c * ((e' - x) / (e' - b')) + (1 - wt z b e) * ((x - b') / (e' - b'))) * Y"
  proof (rule boehm_II[OF ord(1,5,6)])
    show "b < z \<Longrightarrow> b' = b" unfolding b_def b'_def using F(1)[where i = "j + 1"] n by simp
    show "z \<le> a \<Longrightarrow> b' = a" unfolding a_def b'_def using F(2)[where i = j] n by simp
    show "a < z \<Longrightarrow> z \<le> b \<Longrightarrow> b' = z" unfolding a_def b_def b'_def using F(3)[where i = j] n by simp
    show "e < z \<Longrightarrow> e' = e" unfolding e_def e'_def using F(1)[where i = "j + d + 2"] n by simp
    show "z \<le> c \<Longrightarrow> e' = c" unfolding c_def e'_def using F(2)[where i = "j + d + 1"] n
      by (simp add: add.commute add.left_commute numeral_2_eq_2)
    show "c < z \<Longrightarrow> z \<le> e \<Longrightarrow> e' = z" unfolding c_def e_def e'_def using F(3)[where i = "j + d + 1"] n
      by (simp add: add.commute add.left_commute numeral_2_eq_2)
    show "b' = z \<Longrightarrow> e' = z \<Longrightarrow> Y = 0"
      unfolding b'_def e'_def Y_def
      using cdb_const_span[OF F(5), of "j + 1" d z f' x] supp n F(6)
      by (simp add: add.commute add.left_commute numeral_2_eq_2)
  qed
  have III: "(e - x) / (e - b) * (1 - wt z g e) * Z = (1 - wt z b e) * ((h' - x) / (h' - g')) * Z"
  proof (rule boehm_III[OF ord(2,7)])
    show "g < z \<Longrightarrow> g' = g" unfolding g_def g'_def using F(1)[where i = "j + 2"] n by simp
    show "z \<le> b \<Longrightarrow> g' = b" unfolding b_def g'_def using F(2)[where i = "j + 1"] n
      by (simp add: add.commute add.left_commute numeral_2_eq_2)
    show "b < z \<Longrightarrow> z \<le> g \<Longrightarrow> g' = z" unfolding b_def g_def g'_def using F(3)[where i = "j + 1"] n
      by (simp add: add.commute add.left_commute numeral_2_eq_2)
    show "z \<le> e \<Longrightarrow> h' = e" unfolding e_def h'_def using F(2)[where i = "j + d + 2"] n
      by (simp add: add.commute add.left_commute numeral_3_eq_3 numeral_2_eq_2)
    show "g' = z \<Longrightarrow> h' = z \<Longrightarrow> Z = 0"
      unfolding g'_def h'_def Z_def
      using cdb_const_span[OF F(5), of "j + 2" d z f' x] supp n F(6)
      by (simp add: add.commute add.left_commute numeral_2_eq_2 numeral_3_eq_3)
  qed
  have "cdb k x f (Suc d) j =
      (x - a) / (c - a) * wt z a e0 * X
    + ((x - a) / (c - a) * (1 - wt z b c) + (e - x) / (e - b) * wt z b c) * Y
    + (e - x) / (e - b) * (1 - wt z g e) * Z"
    unfolding lhs IHj IHj1 by (simp add: divide_inverse algebra_simps)
  also have "\<dots> = wt z a c * ((x - a') / (c' - a')) * X
    + (wt z a c * ((e' - x) / (e' - b')) + (1 - wt z b e) * ((x - b') / (e' - b'))) * Y
    + (1 - wt z b e) * ((h' - x) / (h' - g')) * Z"
    unfolding I II III ..
  also have "\<dots> = wt z a c * cdb k' x f' (Suc d) j + (1 - wt z b e) * cdb k' x f' (Suc d) (j + 1)"
    unfolding r1 r2 by (simp add: divide_inverse algebra_simps)
  finally show ?case
    by (simp add: a_def b_def c_def e_def add.commute add.left_commute numeral_2_eq_2)
qed

subsection \<open>The order-0 entries of \<open>evalspline\<close> before and after an insertion\<close>

lemma ind0_base_real:
  fixes a0 t0 t1 a0' t0' t1' t2' z x :: real
  assumes "a0 \<le> t0" "t0 \<le> t1"
    and "a0 < z \<Longrightarrow> a0' = a0" "z \<le> a0 \<Longrightarrow> a0' = z"
    and "t0 < z \<Longrightarrow> t0' = t0"
    and "t1 < z \<Longrightarrow> t1' = t1" "z \<le> t0 \<Longrightarrow> t1' = t0" "t0 < z \<Longrightarrow> z \<le> t1 \<Longrightarrow> t1' = z"
    and "z \<le> t1 \<Longrightarrow> t2' = t1"
    and "a0 < z \<or> (x \<noteq> a0 \<and> x \<noteq> z)"
    and "P1 \<Longrightarrow> P0"
  shows "(if P0 \<and> a0 = t0 then of_bool (x \<ge> t0) * of_bool (x \<le> t1)
          else of_bool (x > t0) * of_bool (x \<le> t1)) =
         wt z t0 t0 * (if P0 \<and> a0' = t0' then of_bool (x \<ge> t0') * of_bool (x \<le> t1')
                       else of_bool (x > t0') * of_bool (x \<le> t1'))
       + (1 - wt z t1 t1) * (if P1 \<and> a0' = t1' then of_bool (x \<ge> t1') * of_bool (x \<le> t2')
                             else of_bool (x > t1') * of_bool (x \<le> t2') :: real)"
proof -
  have a0': "a0' = (if a0 < z then a0 else z)" using assms(3,4) by auto
  consider "z \<le> t0" | "t0 < z" "z \<le> t1" | "t1 < z" by linarith
  then show ?thesis
  proof cases
    case 1
    then have "t1' = t0" "t2' = t1" "z \<le> t1" using assms by auto
    then show ?thesis using 1 assms(1,2,10,11) a0' by (auto simp: wt_def)
  next
    case 2
    then have "t0' = t0" "t1' = z" "t2' = t1" using assms by auto
    then show ?thesis using 2 assms(1,2,10,11) a0' by (auto simp: wt_def)
  next
    case 3
    then have "t0' = t0" "t1' = t1" "t0 < z" "a0 < z" "a0' = a0" using assms by auto
    then show ?thesis using 3 by (auto simp: wt_def)
  qed
qed

lemma ind0_base:
  fixes k :: "real list" and z x :: real
  assumes srt: "sorted k" and H: "k ! 0 < z \<or> (x \<noteq> k ! 0 \<and> x \<noteq> z)" and j: "j + 1 < length k"
  shows "ind0 \<lparr>knots = k, degree = deg\<rparr> x j =
      wt z (k ! j) (k ! j) * ind0 \<lparr>knots = sort (k @ [z]), degree = deg\<rparr> x j
    + (1 - wt z (k ! (j + 1)) (k ! (j + 1))) * ind0 \<lparr>knots = sort (k @ [z]), degree = deg\<rparr> x (j + 1)"
proof -
  note F = sort_snoc_facts[OF srt, where z = z]
  have ne: "k \<noteq> []" using j by auto
  show ?thesis
    unfolding ind0_def bspline_basis.simps
  proof (rule ind0_base_real[where ?a0.0 = "k ! 0" and a0' = "sort (k @ [z]) ! 0"])
    show "k ! 0 \<le> k ! j" "k ! j \<le> k ! (j + 1)" using srt j by (simp_all add: sorted_nth_mono)
    show "k ! 0 < z \<Longrightarrow> sort (k @ [z]) ! 0 = k ! 0" using F(1)[where i = 0] ne by simp
    show "z \<le> k ! 0 \<Longrightarrow> sort (k @ [z]) ! 0 = z" using F(4) ne by simp
    show "k ! j < z \<Longrightarrow> sort (k @ [z]) ! j = k ! j" using F(1)[where i = j] j by simp
    show "k ! (j + 1) < z \<Longrightarrow> sort (k @ [z]) ! (j + 1) = k ! (j + 1)" using F(1)[where i = "j + 1"] j by simp
    show "z \<le> k ! j \<Longrightarrow> sort (k @ [z]) ! (j + 1) = k ! j" using F(2)[where i = j] j by simp
    show "k ! j < z \<Longrightarrow> z \<le> k ! (j + 1) \<Longrightarrow> sort (k @ [z]) ! (j + 1) = z" using F(3)[where i = j] j by simp
    show "z \<le> k ! (j + 1) \<Longrightarrow> sort (k @ [z]) ! (j + 1 + 1) = k ! (j + 1)" using F(2)[where i = "j + 1"] j by simp
    show "k ! 0 < z \<or> x \<noteq> k ! 0 \<and> x \<noteq> z" by (rule H)
    show "j + 1 < deg + 1 \<Longrightarrow> j < deg + 1" by simp
  qed
qed

lemma ind0_supp:
  fixes k :: "real list" and z x :: real
  assumes srt: "sorted k" and H: "k ! 0 < z \<or> (x \<noteq> k ! 0 \<and> x \<noteq> z)" and ne: "k \<noteq> []"
    and m: "sort (k @ [z]) ! m = z" "sort (k @ [z]) ! (m + 1) = z"
  shows "ind0 \<lparr>knots = sort (k @ [z]), degree = deg\<rparr> x m = 0"
proof -
  note F = sort_snoc_facts[OF srt, where z = z]
  have "sort (k @ [z]) ! 0 = k ! 0" if "k ! 0 < z" using F(1)[where i = 0] ne that by simp
  moreover have "sort (k @ [z]) ! 0 = z" if "z \<le> k ! 0" using F(4) ne that by simp
  ultimately show ?thesis using H m by (auto simp: ind0_def)
qed

subsection \<open>Matrix-vector products\<close>

lemma length_matvec [simp]: "length (matvec A c) = length A"
  by (simp add: matvec_def)

lemma matvec_nth:
  "i < length A \<Longrightarrow> matvec A c ! i = (\<Sum>l<length c. A ! i ! l * c ! l)"
  by (simp add: matvec_def interv_sum_list_conv_sum_set_nat atLeast0LessThan)

lemma dot_nth:
  "i < length A \<Longrightarrow> j < ncols B \<Longrightarrow> dot A B ! i ! j = (\<Sum>l<length B. A ! i ! l * B ! l ! j)"
  by (simp add: dot_def interv_sum_list_conv_sum_set_nat atLeast0LessThan)

lemma dot_row_length: "i < length A \<Longrightarrow> length (dot A B ! i) = ncols B"
  by (simp add: dot_def)

lemma matvec_dot:
  assumes "B \<noteq> [] \<Longrightarrow> ncols B = length c" and "B = [] \<Longrightarrow> c = []"
  shows "matvec (dot A B) c = matvec A (matvec B c)"
proof (rule nth_equalityI)
  show "length (matvec (dot A B) c) = length (matvec A (matvec B c))" by simp
next
  fix i assume "i < length (matvec (dot A B) c)"
  then have i: "i < length A" by simp
  have nc: "ncols B = length c" using assms by (cases "B = []") (simp_all add: ncols_def)
  have "matvec (dot A B) c ! i = (\<Sum>l<length c. (\<Sum>m<length B. A ! i ! m * B ! m ! l) * c ! l)"
    using i nc by (simp add: matvec_nth dot_nth)
  also have "\<dots> = (\<Sum>l<length c. \<Sum>m<length B. A ! i ! m * (B ! m ! l * c ! l))"
    by (simp add: sum_distrib_right mult.assoc)
  also have "\<dots> = (\<Sum>m<length B. \<Sum>l<length c. A ! i ! m * (B ! m ! l * c ! l))"
    by (rule sum.swap)
  also have "\<dots> = (\<Sum>m<length B. A ! i ! m * matvec B c ! m)"
    by (simp add: matvec_nth sum_distrib_left)
  also have "\<dots> = matvec A (matvec B c) ! i"
    using i by (simp add: matvec_nth)
  finally show "matvec (dot A B) c ! i = matvec A (matvec B c) ! i" .
qed

lemma matvec_eye: "length c = n \<Longrightarrow> matvec (eye n) c = c"
proof (rule nth_equalityI)
  show "length c = n \<Longrightarrow> length (matvec (eye n) c) = length c" by simp
next
  fix i assume len: "length c = n" and "i < length (matvec (eye n) c)"
  then have i: "i < n" by simp
  have "matvec (eye n) c ! i = (\<Sum>l<n. (if i = l then 1 else 0) * c ! l)"
    using i len by (simp add: matvec_nth eye_def)
  also have "\<dots> = (\<Sum>l<n. if l = i then c ! l else 0)"
    by (rule sum.cong) auto
  also have "\<dots> = c ! i" using i by simp
  finally show "matvec (eye n) c ! i = c ! i" .
qed

lemma ncols_eye: "ncols (eye n) = n"
  by (cases n) (simp_all add: eye_def ncols_def upt_conv_Cons del: upt_Suc)

lemma ncols_dot: "A \<noteq> [] \<Longrightarrow> ncols (dot A B) = ncols B"
  by (cases A) (simp_all add: dot_def ncols_def)

subsection \<open>One insertion\<close>

lemma matvec_insertion_matrix:
  assumes "length c = N" "j \<le> N"
  shows "matvec (insertion_matrix kts deg N z) c ! j =
    (if 0 < j then (1 - insertion_weight kts deg z j) * c ! (j - 1) else 0)
    + (if j < N then insertion_weight kts deg z j * c ! j else 0)"
proof -
  let ?w = "insertion_weight kts deg z j"
  have row: "insertion_matrix kts deg N z ! j = insertion_row kts deg N z j"
    using assms(2) by (simp add: insertion_matrix_rows del: upt_Suc)
  have "matvec (insertion_matrix kts deg N z) c ! j =
      (\<Sum>l<N. (if l = j then ?w else if l + 1 = j then 1 - ?w else 0) * c ! l)"
    using assms by (simp add: matvec_nth row insertion_row_nth)
  also have "\<dots> = (\<Sum>l<N. (if l = j then ?w * c ! l else 0) + (if l + 1 = j then (1 - ?w) * c ! l else 0))"
    by (rule sum.cong) auto
  also have "\<dots> = (\<Sum>l<N. if l = j then ?w * c ! l else 0) + (\<Sum>l<N. if l + 1 = j then (1 - ?w) * c ! l else 0)"
    by (rule sum.distrib)
  also have "(\<Sum>l<N. if l = j then ?w * c ! l else 0) = (if j < N then ?w * c ! j else 0)"
    by simp
  also have "(\<Sum>l<N. if l + 1 = j then (1 - ?w) * c ! l else 0) = (if 0 < j then (1 - ?w) * c ! (j - 1) else 0)"
  proof (cases j)
    case 0
    then show ?thesis by simp
  next
    case (Suc j')
    then have "j' < N" using assms(2) by simp
    then show ?thesis using Suc by simp
  qed
  finally show ?thesis by simp
qed

lemma insertion_weight_wt: "insertion_weight kts deg z j = wt z (kts ! j) (kts ! (j + deg))"
  by (simp add: insertion_weight_def wt_def)

lemma insertion_step_eval:
  fixes k :: "real list" and z x :: real
  assumes srt: "sorted k" and len: "length k = N + deg + 1" and c: "length c = N"
    and H: "k ! 0 < z \<or> (x \<noteq> k ! 0 \<and> x \<noteq> z)"
  shows "(\<Sum>j<N + 1. matvec (insertion_matrix k deg N z) c ! j *
            cdb (sort (k @ [z])) x (ind0 \<lparr>knots = sort (k @ [z]), degree = deg\<rparr> x) deg j)
       = (\<Sum>j<N. c ! j * cdb k x (ind0 \<lparr>knots = k, degree = deg\<rparr> x) deg j)"
proof -
  let ?k' = "sort (k @ [z])"
  let ?B = "cdb k x (ind0 \<lparr>knots = k, degree = deg\<rparr> x) deg"
  let ?B' = "cdb ?k' x (ind0 \<lparr>knots = ?k', degree = deg\<rparr> x) deg"
  let ?w = "insertion_weight k deg z"
  have ne: "k \<noteq> []" using len by auto
  have B: "?B j = ?w j * ?B' j + (1 - ?w (j + 1)) * ?B' (j + 1)" if "j < N" for j
    unfolding insertion_weight_wt
  proof (rule boehm_level[OF srt])
    show "j + deg + 1 < length k" using that len by simp
  next
    fix i assume "i + 1 < length k"
    then show "ind0 \<lparr>knots = k, degree = deg\<rparr> x i =
        wt z (k ! i) (k ! i) * ind0 \<lparr>knots = ?k', degree = deg\<rparr> x i
      + (1 - wt z (k ! (i + 1)) (k ! (i + 1))) * ind0 \<lparr>knots = ?k', degree = deg\<rparr> x (i + 1)"
      by (rule ind0_base[OF srt H])
  next
    fix m assume "?k' ! m = z" "?k' ! (m + 1) = z"
    then show "ind0 \<lparr>knots = ?k', degree = deg\<rparr> x m = 0"
      by (rule ind0_supp[OF srt H ne])
  qed
  define g where "g j = (if 0 < j then (1 - ?w j) * c ! (j - 1) * ?B' j else 0)" for j
  define h where "h j = (if j < N then ?w j * c ! j * ?B' j else 0)" for j
  have "(\<Sum>j<N + 1. matvec (insertion_matrix k deg N z) c ! j * ?B' j) = (\<Sum>j<Suc N. g j + h j)"
    by (rule sum.cong) (auto simp: matvec_insertion_matrix[OF c] g_def h_def algebra_simps)
  also have "\<dots> = (\<Sum>j<Suc N. g j) + (\<Sum>j<Suc N. h j)" by (rule sum.distrib)
  also have "(\<Sum>j<Suc N. g j) = (\<Sum>j<N. g (Suc j))"
    by (subst sum.lessThan_Suc_shift) (simp add: g_def)
  also have "(\<Sum>j<Suc N. h j) = (\<Sum>j<N. h j)" by (simp add: h_def)
  also have "(\<Sum>j<N. g (Suc j)) + (\<Sum>j<N. h j) = (\<Sum>j<N. g (Suc j) + h j)"
    by (rule sum.distrib[symmetric])
  also have "\<dots> = (\<Sum>j<N. c ! j * ?B j)"
    by (rule sum.cong) (auto simp: g_def h_def B algebra_simps)
  finally show ?thesis .
qed

subsection \<open>The loop over the knots to insert\<close>

lemma insertion_loop_eval:
  fixes kts :: "real list" and x :: real
  assumes "sorted kts" "length kts = N + deg + 1" "length T = N"
    and "T \<noteq> [] \<Longrightarrow> ncols T = length c0" "T = [] \<Longrightarrow> c0 = []"
    and "\<forall>z\<in>set ks. z \<le> kts ! 0 \<longrightarrow> x \<noteq> kts ! 0 \<and> x \<noteq> z"
  shows "(\<Sum>j<N + length ks. matvec (fst (insertion_loop deg ks N T kts)) c0 ! j *
            cdb (snd (insertion_loop deg ks N T kts)) x
              (ind0 \<lparr>knots = snd (insertion_loop deg ks N T kts), degree = deg\<rparr> x) deg j)
       = (\<Sum>j<N. matvec T c0 ! j * cdb kts x (ind0 \<lparr>knots = kts, degree = deg\<rparr> x) deg j)"
  using assms
proof (induction ks arbitrary: N T kts)
  case Nil
  then show ?case by simp
next
  case (Cons z ks)
  let ?M = "insertion_matrix kts deg N z"
  let ?T1 = "dot ?M T"
  let ?k1 = "sort (kts @ [z])"
  note F = sort_snoc_facts[OF Cons.prems(1), where z = z]
  have ne: "kts \<noteq> []" using Cons.prems(2) by auto
  have k10: "?k1 ! 0 = (if kts ! 0 < z then kts ! 0 else z)"
    using F(1)[where i = 0] F(4) ne by auto
  have H1: "kts ! 0 < z \<or> (x \<noteq> kts ! 0 \<and> x \<noteq> z)" using Cons.prems(6) by auto
  have H': "\<forall>z\<in>set ks. z \<le> ?k1 ! 0 \<longrightarrow> x \<noteq> ?k1 ! 0 \<and> x \<noteq> z"
    using Cons.prems(6) unfolding k10 by auto
  have T1ne: "?T1 \<noteq> []" by (simp add: dot_def insertion_matrix_rows)
  have nc: "ncols ?T1 = length c0"
  proof (cases "T = []")
    case True
    then show ?thesis using Cons.prems(5) T1ne
      by (cases ?T1) (auto simp: ncols_def dot_def insertion_matrix_rows upt_conv_Cons simp del: upt_Suc)
  next
    case False
    have "?M \<noteq> []" by (simp add: insertion_matrix_rows)
    then show ?thesis using Cons.prems(4)[OF False] by (simp add: ncols_dot)
  qed
  have mv: "matvec ?T1 c0 = matvec ?M (matvec T c0)"
    by (rule matvec_dot) (use Cons.prems(4,5) in auto)
  have "(\<Sum>j<N + 1 + length ks. matvec (fst (insertion_loop deg ks (N + 1) ?T1 ?k1)) c0 ! j *
            cdb (snd (insertion_loop deg ks (N + 1) ?T1 ?k1)) x
              (ind0 \<lparr>knots = snd (insertion_loop deg ks (N + 1) ?T1 ?k1), degree = deg\<rparr> x) deg j)
       = (\<Sum>j<N + 1. matvec ?T1 c0 ! j * cdb ?k1 x (ind0 \<lparr>knots = ?k1, degree = deg\<rparr> x) deg j)"
  proof (rule Cons.IH)
    show "sorted ?k1" by simp
    show "length ?k1 = N + 1 + deg + 1" using Cons.prems(2) by simp
    show "length ?T1 = N + 1" by simp
    show "ncols ?T1 = length c0" by (rule nc)
    show "?T1 = [] \<Longrightarrow> c0 = []" using T1ne by simp
    show "\<forall>z\<in>set ks. z \<le> ?k1 ! 0 \<longrightarrow> x \<noteq> ?k1 ! 0 \<and> x \<noteq> z" by (rule H')
  qed
  also have "\<dots> = (\<Sum>j<N. matvec T c0 ! j * cdb kts x (ind0 \<lparr>knots = kts, degree = deg\<rparr> x) deg j)"
    unfolding mv
    by (rule insertion_step_eval[OF Cons.prems(1,2) _ H1]) (simp add: Cons.prems(3))
  finally show ?case by simp
qed

subsection \<open>Knot insertion and evaluation\<close>

text \<open>
  C1 (as stated). The Bezier basis with knots \<open>[0, 0, 1, 1]\<close> and degree 1 and the
  coefficients \<open>[1, 0]\<close>: inserting the knot 0, a point of the domain, gives the knots
  \<open>[0, 0, 0, 1, 1]\<close> and the coefficients \<open>[0, 1, 0]\<close>; at \<open>x = 0\<close> the old curve evaluates
  to 1 and the new one to 0.
\<close>

theorem knot_insertion_value_counterexample:
  "knot_insertion_T \<lparr>knots = [0, 0, 1, 1], degree = 1\<rparr> [0]
     = Inr ([[0, 0], [1, 0], [0, 1]], [0, 0, 0, 1, 1])
   \<and> apply_T ([[0, 0], [1, 0], [0, 1]], [0, 0, 0, 1, 1])
        \<lparr>basis = \<lparr>knots = [0, 0, 1, 1], degree = 1\<rparr>, coeffs = [1, 0]\<rparr>
     = Inr \<lparr>basis = \<lparr>knots = [0, 0, 0, 1, 1], degree = 1\<rparr>, coeffs = [0, 1, 0]\<rparr>
   \<and> evalspline \<lparr>basis = \<lparr>knots = [0, 0, 0, 1, 1], degree = 1\<rparr>, coeffs = [0, 1, 0]\<rparr> 0 = Inr 0
   \<and> evalspline \<lparr>basis = \<lparr>knots = [0, 0, 1, 1], degree = 1\<rparr>, coeffs = [1, 0]\<rparr> 0 = Inr 1"
  by code_simp

text \<open>
  C1 (amended). For a spline over a non-decreasing knot vector with \<open>len(basis)\<close>
  coefficients, knots to insert \<open>ks\<close> and a point \<open>x\<close>: if \<open>x\<close> differs from the first knot
  and from \<open>z\<close> for every inserted knot \<open>z\<close> that is not greater than the first knot (so
  there is no condition on \<open>x\<close> when every inserted knot is greater than the first), then
  \<open>knot_insertion_T\<close> returns a matrix with one more row and a knot vector with one more
  knot per inserted knot, and the curve with the new basis and the transformed
  coefficients evaluates at \<open>x\<close> to the same value as the original curve.
\<close>

theorem knot_insertion_preserves_value:
  assumes "sorted (knots (basis s))" and "degree (basis s) + 1 \<le> length (knots (basis s))"
    and "length (coeffs s) = len_basis (basis s)"
    and "\<forall>z\<in>set ks. z \<le> knots (basis s) ! 0 \<longrightarrow> x \<noteq> knots (basis s) ! 0 \<and> x \<noteq> z"
  shows "\<exists>T kts'. knot_insertion_T (basis s) ks = Inr (T, kts')
     \<and> length kts' = length (knots (basis s)) + length ks
     \<and> length T = len_basis (basis s) + length ks
     \<and> (\<exists>s'. apply_T (T, kts') s = Inr s' \<and> evalspline s' x = evalspline s x)"
proof -
  let ?k = "knots (basis s)" and ?deg = "degree (basis s)" and ?N = "len_basis (basis s)"
  let ?L = "insertion_loop ?deg ks ?N (eye ?N) ?k"
  let ?s' = "\<lparr>basis = \<lparr>knots = snd ?L, degree = ?deg\<rparr>, coeffs = matvec (fst ?L) (coeffs s)\<rparr>"
  have len: "length ?k = ?N + ?deg + 1" using assms(2) by (simp add: len_basis_def)
  have 1: "knot_insertion_T (basis s) ks = Inr (fst ?L, snd ?L)"
    using assms(2) by (simp add: knot_insertion_T_def)
  have 2: "length (snd ?L) = length ?k + length ks"
    by (rule insertion_loop_length_knots)
  have 3: "length (fst ?L) = ?N + length ks"
    by (rule insertion_loop_rows) simp
  have 4: "apply_T (fst ?L, snd ?L) s = Inr ?s'"
    using assms(3) by (simp add: apply_T_def)
  have "len_basis (basis ?s') = length (snd ?L) - ?deg - 1"
    by (simp add: len_basis_def)
  then have N': "len_basis (basis ?s') = ?N + length ks"
    unfolding 2 using len by simp
  have "evalspline ?s' x = Inr (\<Sum>j<?N + length ks. matvec (fst ?L) (coeffs s) ! j *
            cdb (snd ?L) x (ind0 \<lparr>knots = snd ?L, degree = ?deg\<rparr> x) ?deg j)"
    using evalspline_sum[of ?s' x] N' 3 by simp
  also have "(\<Sum>j<?N + length ks. matvec (fst ?L) (coeffs s) ! j *
            cdb (snd ?L) x (ind0 \<lparr>knots = snd ?L, degree = ?deg\<rparr> x) ?deg j)
      = (\<Sum>j<?N. matvec (eye ?N) (coeffs s) ! j * cdb ?k x (ind0 \<lparr>knots = ?k, degree = ?deg\<rparr> x) ?deg j)"
  proof (rule insertion_loop_eval[OF assms(1) len])
    show "length (eye ?N) = ?N" by simp
    show "ncols (eye ?N) = length (coeffs s)" using assms(3) by (simp add: ncols_eye)
    show "eye ?N = [] \<Longrightarrow> coeffs s = []" using assms(3) by (simp add: eye_def)
    show "\<forall>z\<in>set ks. z \<le> ?k ! 0 \<longrightarrow> x \<noteq> ?k ! 0 \<and> x \<noteq> z" by (rule assms(4))
  qed
  also have "matvec (eye ?N) (coeffs s) = coeffs s" using assms(3) by (simp add: matvec_eye)
  also have "\<lparr>knots = ?k, degree = ?deg\<rparr> = basis s" by simp
  also have "Inr (\<Sum>j<?N. coeffs s ! j * cdb ?k x (ind0 (basis s) x) ?deg j) = evalspline s x"
    using evalspline_sum[of s x] assms(3) by simp
  finally have 5: "evalspline ?s' x = evalspline s x" .
  show ?thesis using 1 2 3 4 5 by blast
qed

theorem knot_insertion_preserves_value_witness:
  "\<exists>T kts'. knot_insertion_T \<lparr>knots = [0, 0, 0, 0, 1, 2, 3, 3, 3, 3], degree = 3\<rparr> [3/2] = Inr (T, kts')
     \<and> length kts' = 11 \<and> length T = 7
     \<and> (\<exists>s'. apply_T (T, kts')
                 \<lparr>basis = \<lparr>knots = [0, 0, 0, 0, 1, 2, 3, 3, 3, 3], degree = 3\<rparr>,
                  coeffs = [1, 2, 3, 4, 5, 6]\<rparr> = Inr s'
             \<and> evalspline s' (6/5) = Inr (1579/500))"
proof -
  have e: "evalspline \<lparr>basis = \<lparr>knots = [0, 0, 0, 0, 1, 2, 3, 3, 3, 3], degree = 3\<rparr>,
                  coeffs = [1, 2, 3, 4, 5, 6]\<rparr> (6/5) = Inr (1579/500)"
    by code_simp
  let ?s = "\<lparr>basis = \<lparr>knots = [0, 0, 0, 0, 1, 2, 3, 3, 3, 3], degree = 3\<rparr>,
             coeffs = [1, 2, 3, 4, 5, 6 :: real]\<rparr>"
  have "\<exists>T kts'. knot_insertion_T (basis ?s) [3/2] = Inr (T, kts')
     \<and> length kts' = length (knots (basis ?s)) + length [3/2 :: real]
     \<and> length T = len_basis (basis ?s) + length [3/2 :: real]
     \<and> (\<exists>s'. apply_T (T, kts') ?s = Inr s' \<and> evalspline s' (6/5) = evalspline ?s (6/5))"
    by (rule knot_insertion_preserves_value) (simp_all add: len_basis_def)
  moreover have "Suc (Suc (Suc (Suc (Suc (Suc (Suc (Suc (Suc (Suc (Suc 0)))))))))) = 11"
    "Suc (Suc (Suc (Suc (Suc (Suc (Suc 0)))))) = 7" by simp_all
  ultimately show ?thesis unfolding e by (simp add: len_basis_def)
qed

section \<open>Cropping\<close>

subsection \<open>Slices, sorted lists and windows of sums\<close>

lemma slice_nat:
  assumes "a \<le> b" "b \<le> length xs"
  shows "slice (int a) (int b) xs = take (b - a) (drop a xs)"
  using assms by (simp add: slice_def clip_def Let_def min_def)

lemma filter_le_sorted:
  fixes k :: "real list"
  assumes "sorted k" "i < length k"
  shows "i < length (filter (\<lambda>y. y \<le> z) k) \<longleftrightarrow> k ! i \<le> z"
  using assms
proof (induction k arbitrary: i)
  case Nil
  then show ?case by simp
next
  case (Cons y ys)
  have emp: "filter (\<lambda>u. u \<le> z) ys = []" if "\<not> y \<le> z"
    using Cons.prems(1) that by (auto simp: filter_empty_conv)
  show ?case
  proof (cases i)
    case 0
    then show ?thesis using emp by auto
  next
    case (Suc i')
    have "\<not> ys ! i' \<le> z" if "\<not> y \<le> z"
      using Cons.prems that Suc by (auto simp: dest!: nth_mem)
    then show ?thesis using Suc Cons emp by auto
  qed
qed

lemma length_filter_le_split:
  fixes k :: "real list"
  shows "length (filter (\<lambda>y. y \<le> z) k) = length (filter (\<lambda>y. y < z) k) + length (filter (\<lambda>y. y = z) k)"
  by (induction k) auto

lemma sorted_between_counts:
  fixes k :: "real list"
  assumes "sorted k" "length (filter (\<lambda>y. y < z) k) \<le> i" "i < length (filter (\<lambda>y. y \<le> z) k)"
  shows "k ! i = z"
proof -
  have "length (filter (\<lambda>y. y \<le> z) k) \<le> length k" by (rule length_filter_le)
  then have i: "i < length k" using assms(3) by linarith
  have "k ! i \<le> z" using filter_le_sorted[OF assms(1) i, of z] assms(3) by simp
  moreover have "\<not> k ! i < z" using filter_less_sorted[OF assms(1) i, of z] assms(2) by simp
  ultimately show ?thesis by simp
qed

lemma length_filter_sort:
  fixes xs :: "real list"
  shows "length (filter P (sort xs)) = length (filter P xs)"
proof -
  have "mset (filter P (sort xs)) = mset (filter P xs)" by simp
  then show ?thesis by (metis size_mset)
qed

lemma sum_split_shift:
  fixes f :: "nat \<Rightarrow> real"
  shows "(\<Sum>j<a + b. f j) = (\<Sum>j<a. f j) + (\<Sum>j<b. f (a + j))"
  by (induction b) (simp_all add: add.assoc)

lemma sum_window:
  fixes f :: "nat \<Rightarrow> real"
  assumes "\<And>j. j < p \<Longrightarrow> f j = 0" and "\<And>j. p + m \<le> j \<Longrightarrow> j < n \<Longrightarrow> f j = 0" and "p + m \<le> n"
  shows "(\<Sum>j<n. f j) = (\<Sum>j<m. f (j + p))"
proof -
  obtain r where n: "n = (p + m) + r" using assms(3) by (metis le_Suc_ex)
  have "(\<Sum>j<n. f j) = (\<Sum>j<p + m. f j) + (\<Sum>j<r. f (p + m + j))"
    unfolding n by (rule sum_split_shift)
  also have "(\<Sum>j<r. f (p + m + j)) = 0"
    by (rule sum.neutral) (use assms(2) n in auto)
  also have "(\<Sum>j<p + m. f j) = (\<Sum>j<p. f j) + (\<Sum>j<m. f (p + j))"
    by (rule sum_split_shift)
  also have "(\<Sum>j<p. f j) = 0"
    by (rule sum.neutral) (use assms(1) in auto)
  finally show ?thesis by (simp add: add.commute)
qed

text \<open>An entry of the recursion reads the knots \<open>j, ..., j + d + 1\<close> only.\<close>

lemma cdb_shift:
  assumes "\<And>i. j \<le> i \<Longrightarrow> i \<le> j + d + 1 \<Longrightarrow> k ! i = k2 ! (i + p)"
    and "\<And>i. j \<le> i \<Longrightarrow> i \<le> j + d \<Longrightarrow> f i = f2 (i + p)"
  shows "cdb k x f d j = cdb k2 x f2 d (j + p)"
  using assms
proof (induction d arbitrary: j)
  case 0
  then show ?case by simp
next
  case (Suc d)
  have 1: "cdb k x f d j = cdb k2 x f2 d (j + p)"
    by (rule Suc.IH) (use Suc.prems in auto)
  have 2: "cdb k x f d (j + 1) = cdb k2 x f2 d (j + 1 + p)"
    by (rule Suc.IH) (use Suc.prems in auto)
  have k: "k ! j = k2 ! (j + p)" "k ! (j + 1) = k2 ! (j + 1 + p)"
    "k ! (j + Suc d) = k2 ! (j + Suc d + p)" "k ! (j + Suc d + 1) = k2 ! (j + Suc d + 1 + p)"
    using Suc.prems(1) by simp_all
  show ?case
    unfolding cdb_Suc_div 1 2 k by (simp add: add.commute add.left_commute)
qed

lemma matvec_slice:
  "matvec (take n (drop p A)) c = take n (drop p (matvec A c))"
  by (simp add: matvec_def take_map drop_map)

subsection \<open>The knot vector after the insertions of \<open>crop_T\<close>\<close>

lemma insertion_loop_mset:
  "mset (snd (insertion_loop deg ks N T kts)) = mset kts + mset ks"
  by (induction ks arbitrary: N T kts) simp_all

lemma insertion_loop_sorted:
  "sorted kts \<Longrightarrow> sorted (snd (insertion_loop deg ks N T kts))"
  by (induction ks arbitrary: N T kts) simp_all

lemma length_filter_mset:
  assumes "mset xs = mset ys + mset zs"
  shows "length (filter P xs) = length (filter P ys) + length (filter P zs)"
proof -
  have L: "length (filter P us) = size (filter_mset P (mset us))" for us :: "'a list"
    by (metis mset_filter size_mset)
  show ?thesis unfolding L assms by simp
qed

text \<open>
  With \<open>min_value < max_value\<close>, the new knot vector holds at least \<open>degree + 1\<close> copies of
  each bound; \<open>jmin\<close> is the index of the first copy of \<open>min_value\<close> and \<open>jmax - 1\<close> the
  index of the last copy of \<open>max_value\<close>.
\<close>

lemma crop_knots2:
  fixes k :: "real list" and mn mx :: real and deg N :: nat and T :: matrix
  assumes srt: "sorted k" and lt: "mn < mx"
  defines "ks \<equiv> replicate (deg + 1 - length (filter (\<lambda>y. y = mn) k)) mn
              @ replicate (deg + 1 - length (filter (\<lambda>y. y = mx) k)) mx"
  defines "k2 \<equiv> snd (insertion_loop deg ks N T k)"
  defines "jmin \<equiv> searchsorted_left k2 mn"
  defines "jmax \<equiv> searchsorted_right k2 mx"
  shows "sorted k2" and "jmin + 2 * (deg + 1) \<le> jmax" and "jmax \<le> length k2"
    and "\<And>i. jmin \<le> i \<Longrightarrow> i \<le> jmin + deg \<Longrightarrow> k2 ! i = mn"
    and "\<And>i. jmax \<le> i + deg + 1 \<Longrightarrow> i < jmax \<Longrightarrow> k2 ! i = mx"
proof -
  have ms: "mset k2 = mset k + mset ks" unfolding k2_def by (rule insertion_loop_mset)
  show s2: "sorted k2" unfolding k2_def by (rule insertion_loop_sorted[OF srt])
  have cm: "deg + 1 \<le> length (filter (\<lambda>y. y = mn) k2)"
    using lt unfolding length_filter_mset[OF ms] ks_def by simp
  have cx: "deg + 1 \<le> length (filter (\<lambda>y. y = mx) k2)"
    using lt unfolding length_filter_mset[OF ms] ks_def by simp
  have le_lt: "length (filter (\<lambda>y. y \<le> mn) k2) \<le> length (filter (\<lambda>y. y < mx) k2)"
  proof -
    have "filter (\<lambda>y. y \<le> mn) k2 = filter (\<lambda>y. y \<le> mn) (filter (\<lambda>y. y < mx) k2)"
      using lt by (auto intro!: filter_cong)
    then show ?thesis by (metis length_filter_le)
  qed
  have jmin: "jmin = length (filter (\<lambda>y. y < mn) k2)" by (simp add: jmin_def searchsorted_left_def)
  have jmax: "jmax = length (filter (\<lambda>y. y \<le> mx) k2)" by (simp add: jmax_def searchsorted_right_def)
  show j2: "jmin + 2 * (deg + 1) \<le> jmax"
    using cm cx le_lt unfolding jmin jmax length_filter_le_split[of mn k2] length_filter_le_split[of mx k2]
    by simp
  show "jmax \<le> length k2" unfolding jmax by (rule length_filter_le)
  show "k2 ! i = mn" if "jmin \<le> i" "i \<le> jmin + deg" for i
  proof (rule sorted_between_counts[OF s2])
    show "length (filter (\<lambda>y. y < mn) k2) \<le> i" using that jmin by simp
    show "i < length (filter (\<lambda>y. y \<le> mn) k2)"
      using that cm unfolding length_filter_le_split[of mn k2] jmin by simp
  qed
  show "k2 ! i = mx" if "jmax \<le> i + deg + 1" "i < jmax" for i
  proof (rule sorted_between_counts[OF s2])
    show "length (filter (\<lambda>y. y < mx) k2) \<le> i"
      using that cx unfolding jmax length_filter_le_split[of mx k2] by simp
    show "i < length (filter (\<lambda>y. y \<le> mx) k2)" using that jmax by simp
  qed
qed

subsection \<open>What \<open>crop_T\<close> and \<open>crop\<close> return\<close>

lemma crop_T_result:
  fixes b :: bspline_basis and mn mx :: real
  assumes srt: "sorted (knots b)" and valid: "degree b + 1 \<le> length (knots b)" and lt: "mn < mx"
  defines "ks \<equiv> replicate (degree b + 1 - length (filter (\<lambda>y. y = mn) (knots b))) mn
              @ replicate (degree b + 1 - length (filter (\<lambda>y. y = mx) (knots b))) mx"
  defines "L \<equiv> insertion_loop (degree b) ks (len_basis b) (eye (len_basis b)) (knots b)"
  defines "jmin \<equiv> searchsorted_left (snd L) mn"
  defines "jmax \<equiv> searchsorted_right (snd L) mx"
  shows "crop_T b mn mx =
    Inr (take (jmax - degree b - 1 - jmin) (drop jmin (fst L)), take (jmax - jmin) (drop jmin (snd L)))"
proof -
  note K = crop_knots2[OF srt lt, of "degree b" "len_basis b" "eye (len_basis b)",
      folded ks_def, folded L_def, folded jmin_def jmax_def]
  have lenT: "length (fst L) = len_basis b + length ks"
    unfolding L_def by (rule insertion_loop_rows) simp
  have lenk: "length (snd L) = length (knots b) + length ks"
    unfolding L_def by (rule insertion_loop_length_knots)
  have i: "int jmax - int (degree b) - 1 = int (jmax - degree b - 1)" using K(2) by simp
  have 1: "slice (int jmin) (int jmax - int (degree b) - 1) (fst L)
      = take (jmax - degree b - 1 - jmin) (drop jmin (fst L))"
    unfolding i using K(2,3) lenT lenk valid by (intro slice_nat) (simp_all add: len_basis_def)
  have 2: "slice (int jmin) (int jmax) (snd L) = take (jmax - jmin) (drop jmin (snd L))"
    using K(2,3) by (intro slice_nat) simp_all
  have kiT: "knot_insertion_T b ks = Inr (fst L, snd L)"
    using valid by (simp add: knot_insertion_T_def L_def)
  show ?thesis
    unfolding crop_T_def Let_def ks_def[symmetric] kiT sum.case prod.case
      jmin_def[symmetric] jmax_def[symmetric] 1 2 ..
qed

lemma crop_eval:
  fixes s :: bspline and mn mx x :: real
  assumes srt: "sorted (knots (basis s))" and valid: "degree (basis s) + 1 \<le> length (knots (basis s))"
    and len: "length (coeffs s) = len_basis (basis s)"
    and lo: "knots (basis s) ! 0 \<le> mn" and lt: "mn < mx" and x: "mn < x" "x \<le> mx"
  shows "\<exists>s'. crop s mn mx = Inr s' \<and> evalspline s' x = evalspline s x
     \<and> sorted (knots (basis s')) \<and> knots (basis s') \<noteq> []
     \<and> knots (basis s') ! 0 = mn \<and> last (knots (basis s')) = mx
     \<and> degree (basis s') = degree (basis s) \<and> length (coeffs s') = len_basis (basis s')"
proof -
  let ?b = "basis s" and ?k = "knots (basis s)" and ?deg = "degree (basis s)" and ?N = "len_basis (basis s)"
  define ks where "ks = replicate (?deg + 1 - length (filter (\<lambda>y. y = mn) ?k)) mn
              @ replicate (?deg + 1 - length (filter (\<lambda>y. y = mx) ?k)) mx"
  define L where "L = insertion_loop ?deg ks ?N (eye ?N) ?k"
  define T where "T = fst L"
  define k2 where "k2 = snd L"
  define jmin where "jmin = searchsorted_left k2 mn"
  define jmax where "jmax = searchsorted_right k2 mx"
  define Nc where "Nc = jmax - ?deg - 1 - jmin"
  define kc where "kc = take (jmax - jmin) (drop jmin k2)"
  define c2 where "c2 = matvec T (coeffs s)"
  define cc where "cc = matvec (take Nc (drop jmin T)) (coeffs s)"
  define s' where "s' = \<lparr>basis = \<lparr>knots = kc, degree = ?deg\<rparr>, coeffs = cc\<rparr>"
  note K = crop_knots2[OF srt lt, of ?deg ?N "eye ?N", folded ks_def, folded L_def,
      folded k2_def, folded jmin_def jmax_def]
  have lenk: "length ?k = ?N + ?deg + 1" using valid by (simp add: len_basis_def)
  have rec: "\<lparr>knots = ?k, degree = ?deg\<rparr> = ?b" by simp
  have lenT: "length T = ?N + length ks"
    unfolding T_def L_def by (rule insertion_loop_rows) simp
  have lenk2: "length k2 = ?N + length ks + ?deg + 1"
    unfolding k2_def L_def insertion_loop_length_knots lenk by simp
  have cropT: "crop_T ?b mn mx = Inr (take Nc (drop jmin T), kc)"
    using crop_T_result[OF srt valid lt]
    unfolding ks_def[symmetric] L_def[symmetric] T_def[symmetric] k2_def[symmetric]
      jmin_def[symmetric] jmax_def[symmetric] Nc_def kc_def .
  have crop: "crop s mn mx = Inr s'"
    unfolding crop_def cropT by (simp add: apply_T_def len s'_def cc_def)
  have lenkc: "length kc = jmax - jmin" unfolding kc_def using K(3) by simp
  have Nc: "Nc + ?deg + 1 = jmax - jmin" "jmin + Nc = jmax - ?deg - 1" unfolding Nc_def using K(2) by simp_all
  have lenb': "len_basis (basis s') = Nc" unfolding s'_def len_basis_def using lenkc Nc by simp
  have lencc: "length cc = Nc" unfolding cc_def using lenT lenk2 K(3) Nc by simp
  have kc_nth: "kc ! i = k2 ! (i + jmin)" if "i < jmax - jmin" for i
    unfolding kc_def using that K(3) by (simp add: add.commute)
  have kc0: "kc ! 0 = mn" using kc_nth[of 0] K(2) K(4)[of jmin] by simp
  have kclast: "last kc = mx"
  proof -
    have "kc \<noteq> []" using lenkc K(2) by auto
    then have "last kc = kc ! (jmax - jmin - 1)" by (simp add: last_conv_nth lenkc)
    also have "\<dots> = k2 ! (jmax - 1)" using kc_nth[of "jmax - jmin - 1"] K(2) by simp
    also have "\<dots> = mx" using K(5)[of "jmax - 1"] K(2) by simp
    finally show ?thesis .
  qed
  have cc_nth: "cc ! j = c2 ! (j + jmin)" if "j < Nc" for j
  proof -
    have "cc = take Nc (drop jmin c2)" unfolding cc_def c2_def by (rule matvec_slice)
    then show ?thesis using that lenT lenk2 K(3) Nc by (simp add: c2_def add.commute)
  qed
  have xk2: "x \<noteq> k2 ! 0"
  proof -
    have "k2 ! 0 \<le> k2 ! jmin" using K(1,2,3) by (intro sorted_nth_mono) simp_all
    then show ?thesis using K(4)[of jmin] x(1) by simp
  qed
  have xkc: "x \<noteq> kc ! 0" using kc0 x(1) by simp
  let ?B2 = "cdb k2 x (hind k2 x) ?deg"
  have B_shift: "cdb kc x (ind0 \<lparr>knots = kc, degree = ?deg\<rparr> x) ?deg j = ?B2 (j + jmin)" if "j < Nc" for j
  proof (rule cdb_shift)
    fix i assume "j \<le> i" "i \<le> j + ?deg + 1"
    then show "kc ! i = k2 ! (i + jmin)" using that Nc by (intro kc_nth) simp
  next
    fix i assume i: "j \<le> i" "i \<le> j + ?deg"
    have "ind0 \<lparr>knots = kc, degree = ?deg\<rparr> x i = hind kc x i" using xkc by (simp add: ind0_hind)
    also have "\<dots> = hind k2 x (i + jmin)"
      unfolding hind_def using kc_nth[of i] kc_nth[of "i + 1"] i that Nc by simp
    finally show "ind0 \<lparr>knots = kc, degree = ?deg\<rparr> x i = hind k2 x (i + jmin)" .
  qed
  have ev': "evalspline s' x = Inr (\<Sum>j<Nc. c2 ! (j + jmin) * ?B2 (j + jmin))"
  proof -
    have "evalspline s' x = Inr (\<Sum>j<Nc. cc ! j * cdb kc x (ind0 \<lparr>knots = kc, degree = ?deg\<rparr> x) ?deg j)"
      using evalspline_sum[of s' x] lenb' lencc by (simp add: s'_def)
    also have "(\<Sum>j<Nc. cc ! j * cdb kc x (ind0 \<lparr>knots = kc, degree = ?deg\<rparr> x) ?deg j)
        = (\<Sum>j<Nc. c2 ! (j + jmin) * ?B2 (j + jmin))"
      by (rule sum.cong) (simp_all add: cc_nth B_shift)
    finally show ?thesis .
  qed
  have zero_lo: "?B2 j = 0" if "j < jmin" for j
  proof (rule ccontr)
    assume nz: "?B2 j \<noteq> 0"
    have in_range: "j + ?deg + 1 < length k2" using that K(2,3) by simp
    from cdb_support[OF K(1) in_range nz] have "x \<le> k2 ! (j + ?deg + 1)" by simp
    also have "\<dots> \<le> k2 ! (jmin + ?deg)" using that K(1,2,3) by (intro sorted_nth_mono) simp_all
    also have "\<dots> = mn" using K(4)[of "jmin + ?deg"] by simp
    finally show False using x(1) by simp
  qed
  have zero_hi: "?B2 j = 0" if "jmin + Nc \<le> j" "j < ?N + length ks" for j
  proof (rule ccontr)
    assume nz: "?B2 j \<noteq> 0"
    have in_range: "j + ?deg + 1 < length k2" using that lenk2 by simp
    from cdb_support[OF K(1) in_range nz] have "k2 ! j < x" by simp
    moreover have "k2 ! (jmax - ?deg - 1) \<le> k2 ! j"
      using that Nc in_range K(1) by (intro sorted_nth_mono) simp_all
    moreover have "k2 ! (jmax - ?deg - 1) = mx" using K(5)[of "jmax - ?deg - 1"] K(2) by simp
    ultimately show False using x(2) by simp
  qed
  have "evalspline s x = Inr (\<Sum>j<?N. coeffs s ! j * cdb ?k x (ind0 ?b x) ?deg j)"
    using evalspline_sum[of s x] len by simp
  also have "(\<Sum>j<?N. coeffs s ! j * cdb ?k x (ind0 ?b x) ?deg j)
      = (\<Sum>j<?N. matvec (eye ?N) (coeffs s) ! j * cdb ?k x (ind0 \<lparr>knots = ?k, degree = ?deg\<rparr> x) ?deg j)"
    using len by (simp add: matvec_eye rec)
  also have "\<dots> = (\<Sum>j<?N + length ks. c2 ! j * cdb k2 x (ind0 \<lparr>knots = k2, degree = ?deg\<rparr> x) ?deg j)"
    unfolding c2_def T_def k2_def L_def
  proof (rule insertion_loop_eval[OF srt lenk, symmetric])
    show "length (eye ?N) = ?N" by simp
    show "ncols (eye ?N) = length (coeffs s)" using len by (simp add: ncols_eye)
    show "eye ?N = [] \<Longrightarrow> coeffs s = []" using len by (simp add: eye_def)
    show "\<forall>z\<in>set ks. z \<le> ?k ! 0 \<longrightarrow> x \<noteq> ?k ! 0 \<and> x \<noteq> z"
      using lo lt x by (auto simp: ks_def)
  qed
  also have "\<dots> = (\<Sum>j<?N + length ks. c2 ! j * ?B2 j)"
  proof -
    have "ind0 \<lparr>knots = k2, degree = ?deg\<rparr> x = hind k2 x"
      using xk2 by (auto simp: ind0_hind)
    then show ?thesis by simp
  qed
  also have "\<dots> = (\<Sum>j<Nc. c2 ! (j + jmin) * ?B2 (j + jmin))"
  proof (rule sum_window)
    show "c2 ! j * ?B2 j = 0" if "j < jmin" for j using zero_lo[OF that] by simp
    show "c2 ! j * ?B2 j = 0" if "jmin + Nc \<le> j" "j < ?N + length ks" for j
      using zero_hi[OF that] by simp
    show "jmin + Nc \<le> ?N + length ks" using Nc K(3) lenk2 by simp
  qed
  finally have ev: "evalspline s x = evalspline s' x" using ev' by simp
  have "sorted kc" unfolding kc_def using K(1) by (simp add: sorted_wrt_take sorted_wrt_drop)
  moreover have "kc \<noteq> []" using lenkc K(2) by auto
  ultimately show ?thesis
    using crop ev kc0 kclast lenb' lencc by (intro exI[of _ s']) (simp add: s'_def)
qed

subsection \<open>Evaluation from the right\<close>

lemma rind_base:
  fixes k :: "real list" and z x :: real
  assumes srt: "sorted k" and j: "j + 1 < length k"
  shows "rind k x j =
      wt z (k ! j) (k ! j) * rind (sort (k @ [z])) x j
    + (1 - wt z (k ! (j + 1)) (k ! (j + 1))) * rind (sort (k @ [z])) x (j + 1)"
proof -
  note F = sort_snoc_facts[OF srt, where z = z]
  have o: "k ! j \<le> k ! (j + 1)" using srt j by (simp add: sorted_nth_mono)
  consider "z \<le> k ! j" | "k ! j < z" "z \<le> k ! (j + 1)" | "k ! (j + 1) < z" by linarith
  then show ?thesis
  proof cases
    case 1
    have "sort (k @ [z]) ! (j + 1) = k ! j" using F(2)[where i = j] j 1 by simp
    moreover have "sort (k @ [z]) ! (j + 1 + 1) = k ! (j + 1)"
      using F(2)[where i = "j + 1"] j 1 o by simp
    ultimately show ?thesis using 1 o by (simp add: rind_def wt_def)
  next
    case 2
    have "sort (k @ [z]) ! j = k ! j" using F(1)[where i = j] j 2 by simp
    moreover have "sort (k @ [z]) ! (j + 1) = z" using F(3)[where i = j] j 2 by simp
    moreover have "sort (k @ [z]) ! (j + 1 + 1) = k ! (j + 1)"
      using F(2)[where i = "j + 1"] j 2 by simp
    ultimately show ?thesis using 2 by (auto simp: rind_def wt_def)
  next
    case 3
    have "sort (k @ [z]) ! j = k ! j" using F(1)[where i = j] j 3 o by simp
    moreover have "sort (k @ [z]) ! (j + 1) = k ! (j + 1)" using F(1)[where i = "j + 1"] j 3 by simp
    ultimately show ?thesis using 3 o by (simp add: rind_def wt_def)
  qed
qed

lemma rind_supp: "k ! m = z \<Longrightarrow> k ! (m + 1) = z \<Longrightarrow> rind k x m = 0"
  by (simp add: rind_def)

text \<open>
  From order 1 on, an entry does not read the order-0 entries of the intervals without
  length.
\<close>

lemma cdb_mask:
  assumes "\<And>j. i \<le> j \<Longrightarrow> j \<le> i + d \<Longrightarrow> d = 0 \<or> k ! j \<noteq> k ! (j + 1) \<Longrightarrow> f j = g j"
  shows "cdb k x f d i = cdb k x g d i"
  using assms
proof (induction d arbitrary: i)
  case 0
  then show ?case by simp
next
  case (Suc d)
  show ?case
  proof (cases d)
    case 0
    have "f i = g i" if "k ! i \<noteq> k ! (i + 1)" using Suc.prems[of i] that by simp
    moreover have "f (i + 1) = g (i + 1)" if "k ! (i + 1) \<noteq> k ! (i + 2)"
      using Suc.prems[of "i + 1"] that by (simp add: numeral_2_eq_2)
    ultimately show ?thesis unfolding 0 by (auto simp: cdb.simps(2) numeral_2_eq_2)
  next
    case (Suc e)
    have "cdb k x f d i = cdb k x g d i"
      by (rule Suc.IH) (use Suc.prems Suc in auto)
    moreover have "cdb k x f d (i + 1) = cdb k x g d (i + 1)"
      by (rule Suc.IH) (use Suc.prems Suc in auto)
    ultimately show ?thesis by (simp add: cdb_Suc_div)
  qed
qed

lemma cdb_rind_zero:
  assumes "sorted k" "i + d + 1 < length k" "x < k ! i \<or> k ! (i + d + 1) \<le> x"
  shows "cdb k x (rind k x) d i = 0"
proof (rule cdb_zero)
  fix j assume j: "i \<le> j" "j \<le> i + d"
  have "k ! i \<le> k ! j" "k ! (j + 1) \<le> k ! (i + d + 1)"
    using assms(1,2) j by (simp_all add: sorted_nth_mono)
  then show "rind k x j = 0" using assms(3) by (auto simp: rind_def)
qed

text \<open>The two entries next to a knot of full multiplicity.\<close>

lemma cdb_left_end:
  assumes "sorted k" "k ! i < x" "k ! (i + 1) = x"
  shows "i + d + 1 < length k \<Longrightarrow> k ! (i + d + 1) = x \<Longrightarrow>
    cdb k x (hind k x) d i = 1 \<and> cdb k x (rind k x) d i = 0"
proof (induction d)
  case 0
  then show ?case using assms(2) by (simp add: hind_def rind_def)
next
  case (Suc d)
  have "k ! (i + 1) \<le> k ! (i + d + 1)" "k ! (i + d + 1) \<le> k ! (i + Suc d + 1)"
    using assms(1) Suc.prems(1) by (simp_all add: sorted_nth_mono)
  then have e: "k ! (i + d + 1) = x" using assms(3) Suc.prems(2) by simp
  have IH: "cdb k x (hind k x) d i = 1" "cdb k x (rind k x) d i = 0"
    using Suc.IH Suc.prems(1) e by simp_all
  have z: "k ! (i + Suc d + 1) - k ! (i + 1) = 0" using Suc.prems(2) assms(3) by simp
  have n: "k ! (i + Suc d) - k ! i \<noteq> 0" "(x - k ! i) / (k ! (i + Suc d) - k ! i) = 1"
    using e assms(2) by simp_all
  show ?case unfolding cdb_Suc_div IH z using n by simp
qed

lemma cdb_right_end:
  assumes "sorted k" "k ! (i + d) = x" "x < k ! (i + d + 1)"
  shows "i + d + 1 < length k \<Longrightarrow> k ! i = x \<Longrightarrow>
    cdb k x (hind k x) d i = 0 \<and> cdb k x (rind k x) d i = 1"
  using assms(2,3)
proof (induction d arbitrary: i)
  case 0
  then show ?case by (simp add: hind_def rind_def)
next
  case (Suc d)
  have "k ! i \<le> k ! (i + 1)" "k ! (i + 1) \<le> k ! (i + Suc d)"
    using assms(1) Suc.prems(1) by (simp_all add: sorted_nth_mono)
  then have e: "k ! (i + 1) = x" using Suc.prems(2,3) by simp
  have IH: "cdb k x (hind k x) d (i + 1) = 0" "cdb k x (rind k x) d (i + 1) = 1"
    using Suc.IH[of "i + 1"] Suc.prems e by simp_all
  have z: "k ! (i + Suc d) - k ! i = 0" using Suc.prems(2,3) by simp
  have n: "(k ! (i + Suc d + 1) - x) / (k ! (i + Suc d + 1) - k ! (i + 1)) = 1"
    using e Suc.prems(4) by simp
  show ?case unfolding cdb_Suc_div IH z using n by simp
qed

text \<open>
  At a point that is not a knot of multiplicity \<open>d + 1\<close> among the knots of an entry of
  order \<open>d\<close>, the values from the left and from the right agree.
\<close>

lemma cdb_continuous:
  assumes srt: "sorted k"
  shows "i + d + 1 < length k \<Longrightarrow>
    k ! i \<noteq> x \<or> k ! (i + d) \<noteq> x \<Longrightarrow> k ! (i + 1) \<noteq> x \<or> k ! (i + d + 1) \<noteq> x \<Longrightarrow>
    cdb k x (hind k x) d i = cdb k x (rind k x) d i"
proof (induction d arbitrary: i)
  case 0
  then show ?case by (auto simp: hind_def rind_def)
next
  case (Suc d)
  let ?H = "cdb k x (hind k x) d" and ?R = "cdb k x (rind k x) d"
  have o: "k ! i \<le> k ! (i + 1)" "k ! (i + 1) \<le> k ! (i + d + 1)"
    "k ! (i + d) \<le> k ! (i + d + 1)" "k ! (i + d + 1) \<le> k ! (i + d + 2)"
    "k ! i \<le> k ! (i + d)" "k ! (i + 1) \<le> k ! (i + 2)" "k ! (i + 2) \<le> k ! (i + d + 2)"
    using srt Suc.prems(1) by (simp_all add: sorted_nth_mono)
  have Q: "k ! i \<noteq> x \<or> k ! (i + d + 1) \<noteq> x" "k ! (i + 1) \<noteq> x \<or> k ! (i + d + 2) \<noteq> x"
    using Suc.prems(2,3) by (simp_all add: add.commute add.left_commute numeral_2_eq_2)
  define t1 where "t1 f = (x - k ! i) * f i / (k ! (i + d + 1) - k ! i)" for f :: "nat \<Rightarrow> real"
  define t2 where "t2 f = (k ! (i + d + 2) - x) * f (i + 1) / (k ! (i + d + 2) - k ! (i + 1))"
    for f :: "nat \<Rightarrow> real"
  have split: "cdb k x f (Suc d) i = t1 (cdb k x f d) + t2 (cdb k x f d)" for f
    by (simp add: cdb_Suc_div t1_def t2_def add.commute add.left_commute numeral_2_eq_2)
  show ?case
  proof (cases "k ! (i + 1) = x \<and> k ! (i + d + 1) = x")
    case True
    then have lo: "k ! i < x" and hi: "x < k ! (i + d + 2)" using Q o by auto
    have L: "?H i = 1" "?R i = 0"
      using cdb_left_end[OF srt lo, of d] True Suc.prems(1) by simp_all
    have "?H (i + 1) = 0 \<and> ?R (i + 1) = 1"
    proof (rule cdb_right_end[OF srt])
      show "k ! (i + 1 + d) = x" using True by (simp add: add.commute add.left_commute)
      show "x < k ! (i + 1 + d + 1)" using hi by (simp add: add.commute add.left_commute numeral_2_eq_2)
      show "i + 1 + d + 1 < length k" using Suc.prems(1) by simp
      show "k ! (i + 1) = x" using True by simp
    qed
    then have R: "?H (Suc i) = 0" "?R (Suc i) = 1" by simp_all
    have "t1 ?H = 1" "t1 ?R = 0" "t2 ?H = 0" "t2 ?R = 1"
      using True lo hi by (simp_all add: t1_def t2_def L R)
    then show ?thesis unfolding split by simp
  next
    case False
    have 1: "t1 ?H = t1 ?R"
    proof (cases "k ! i = x \<and> k ! (i + d) = x")
      case True
      then show ?thesis by (simp add: t1_def)
    next
      case F1: False
      have "?H i = ?R i"
        by (rule Suc.IH) (use F1 False Suc.prems(1) in auto)
      then show ?thesis by (simp add: t1_def)
    qed
    have 2: "t2 ?H = t2 ?R"
    proof (cases "k ! (i + 2) = x \<and> k ! (i + d + 2) = x")
      case True
      then show ?thesis by (simp add: t2_def)
    next
      case F2: False
      have "?H (i + 1) = ?R (i + 1)"
        by (rule Suc.IH) (use F2 False Suc.prems(1) in \<open>auto simp: add.commute add.left_commute numeral_2_eq_2\<close>)
      then show ?thesis by (simp add: t2_def)
    qed
    show ?thesis unfolding split 1 2 ..
  qed
qed

lemma count_eq_ge:
  fixes k :: "real list"
  assumes "sorted k" "b < length k" "k ! a = x" "k ! b = x" "a \<le> b"
  shows "b - a + 1 \<le> length (filter (\<lambda>y. y = x) k)"
proof -
  define A where "A = length (filter (\<lambda>y. y \<le> x) k)"
  define B where "B = length (filter (\<lambda>y. y < x) k)"
  define C where "C = length (filter (\<lambda>y. y = x) k)"
  have 1: "b < A"
    unfolding A_def using filter_le_sorted[OF assms(1,2), of x] assms(4) by simp
  have 2: "\<not> a < B"
    unfolding B_def using filter_less_sorted[OF assms(1), of a x] assms(2,3,5) by simp
  have 3: "A = B + C" unfolding A_def B_def C_def by (rule length_filter_le_split)
  have "b - a + 1 \<le> C" using 1 2 3 assms(5) by arith
  then show ?thesis unfolding C_def .
qed

lemma ind0_rind_first:
  fixes k :: "real list"
  assumes srt: "sorted k" and cnt: "length (filter (\<lambda>y. y = k ! 0) k) \<le> deg + 1"
    and i: "i + 1 < length k" and nd: "deg = 0 \<or> k ! i \<noteq> k ! (i + 1)"
  shows "ind0 \<lparr>knots = k, degree = deg\<rparr> (k ! 0) i = rind k (k ! 0) i"
proof (cases "k ! i = k ! 0")
  case True
  have "i - 0 + 1 \<le> length (filter (\<lambda>y. y = k ! 0) k)"
    using i True by (intro count_eq_ge[OF srt]) simp_all
  then have ib: "i < deg + 1" using cnt by simp
  have "k ! (i + 1) \<noteq> k ! 0"
  proof
    assume e: "k ! (i + 1) = k ! 0"
    have "i + 1 - 0 + 1 \<le> length (filter (\<lambda>y. y = k ! 0) k)"
      using i e by (intro count_eq_ge[OF srt]) simp_all
    then show False using nd cnt True e by auto
  qed
  moreover have "k ! 0 \<le> k ! (i + 1)" using srt i by (simp add: sorted_nth_mono)
  ultimately have "k ! 0 < k ! (i + 1)" by simp
  then show ?thesis using True ib by (simp add: ind0_def rind_def)
next
  case False
  moreover have "k ! 0 \<le> k ! i" using srt i by (simp add: sorted_nth_mono)
  ultimately have "k ! 0 < k ! i" by simp
  then show ?thesis by (simp add: ind0_def rind_def)
qed

lemma cdb_ind0_rind_first:
  fixes k :: "real list"
  assumes "sorted k" "length (filter (\<lambda>y. y = k ! 0) k) \<le> deg + 1" "j + deg + 1 < length k"
  shows "cdb k (k ! 0) (ind0 \<lparr>knots = k, degree = deg\<rparr> (k ! 0)) deg j = cdb k (k ! 0) (rind k (k ! 0)) deg j"
proof (rule cdb_mask)
  fix i assume "j \<le> i" "i \<le> j + deg" "deg = 0 \<or> k ! i \<noteq> k ! (i + 1)"
  then show "ind0 \<lparr>knots = k, degree = deg\<rparr> (k ! 0) i = rind k (k ! 0) i"
    using assms by (intro ind0_rind_first) simp_all
qed

lemma cdb_hind_rind:
  fixes k :: "real list"
  assumes srt: "sorted k" and cnt: "length (filter (\<lambda>y. y = x) k) \<le> deg" and j: "j + deg + 1 < length k"
  shows "cdb k x (hind k x) deg j = cdb k x (rind k x) deg j"
proof (rule cdb_continuous[OF srt j])
  show "k ! j \<noteq> x \<or> k ! (j + deg) \<noteq> x"
    using count_eq_ge[OF srt, of "j + deg" j x] cnt j by auto
  show "k ! (j + 1) \<noteq> x \<or> k ! (j + deg + 1) \<noteq> x"
    using count_eq_ge[OF srt, of "j + deg + 1" "j + 1" x] cnt j by auto
qed

subsection \<open>Knot insertion and evaluation from the right\<close>

lemma insertion_step_sum:
  fixes k :: "real list" and z x :: real
  assumes srt: "sorted k" and len: "length k = N + deg + 1" and c: "length c = N"
    and base: "\<And>j. j + 1 < length k \<Longrightarrow>
        f j = wt z (k ! j) (k ! j) * f' j + (1 - wt z (k ! (j + 1)) (k ! (j + 1))) * f' (j + 1)"
    and supp: "\<And>m. sort (k @ [z]) ! m = z \<Longrightarrow> sort (k @ [z]) ! (m + 1) = z \<Longrightarrow> f' m = 0"
  shows "(\<Sum>j<N + 1. matvec (insertion_matrix k deg N z) c ! j * cdb (sort (k @ [z])) x f' deg j)
       = (\<Sum>j<N. c ! j * cdb k x f deg j)"
proof -
  let ?k' = "sort (k @ [z])"
  let ?B = "cdb k x f deg"
  let ?B' = "cdb ?k' x f' deg"
  let ?w = "insertion_weight k deg z"
  have B: "?B j = ?w j * ?B' j + (1 - ?w (j + 1)) * ?B' (j + 1)" if "j < N" for j
    unfolding insertion_weight_wt
  proof (rule boehm_level[OF srt])
    show "j + deg + 1 < length k" using that len by simp
  next
    fix i assume "i + 1 < length k"
    then show "f i = wt z (k ! i) (k ! i) * f' i + (1 - wt z (k ! (i + 1)) (k ! (i + 1))) * f' (i + 1)"
      by (rule base)
  next
    fix m assume "?k' ! m = z" "?k' ! (m + 1) = z"
    then show "f' m = 0" by (rule supp)
  qed
  define g where "g j = (if 0 < j then (1 - ?w j) * c ! (j - 1) * ?B' j else 0)" for j
  define h where "h j = (if j < N then ?w j * c ! j * ?B' j else 0)" for j
  have "(\<Sum>j<N + 1. matvec (insertion_matrix k deg N z) c ! j * ?B' j) = (\<Sum>j<Suc N. g j + h j)"
    by (rule sum.cong) (auto simp: matvec_insertion_matrix[OF c] g_def h_def algebra_simps)
  also have "\<dots> = (\<Sum>j<Suc N. g j) + (\<Sum>j<Suc N. h j)" by (rule sum.distrib)
  also have "(\<Sum>j<Suc N. g j) = (\<Sum>j<N. g (Suc j))"
    by (subst sum.lessThan_Suc_shift) (simp add: g_def)
  also have "(\<Sum>j<Suc N. h j) = (\<Sum>j<N. h j)" by (simp add: h_def)
  also have "(\<Sum>j<N. g (Suc j)) + (\<Sum>j<N. h j) = (\<Sum>j<N. g (Suc j) + h j)"
    by (rule sum.distrib[symmetric])
  also have "\<dots> = (\<Sum>j<N. c ! j * ?B j)"
    by (rule sum.cong) (auto simp: g_def h_def B algebra_simps)
  finally show ?thesis .
qed

lemma insertion_loop_eval_rind:
  fixes kts :: "real list" and x :: real
  assumes "sorted kts" "length kts = N + deg + 1" "length T = N"
    and "T \<noteq> [] \<Longrightarrow> ncols T = length c0" "T = [] \<Longrightarrow> c0 = []"
  shows "(\<Sum>j<N + length ks. matvec (fst (insertion_loop deg ks N T kts)) c0 ! j *
            cdb (snd (insertion_loop deg ks N T kts)) x
              (rind (snd (insertion_loop deg ks N T kts)) x) deg j)
       = (\<Sum>j<N. matvec T c0 ! j * cdb kts x (rind kts x) deg j)"
  using assms
proof (induction ks arbitrary: N T kts)
  case Nil
  then show ?case by simp
next
  case (Cons z ks)
  let ?M = "insertion_matrix kts deg N z"
  let ?T1 = "dot ?M T"
  let ?k1 = "sort (kts @ [z])"
  have T1ne: "?T1 \<noteq> []" by (simp add: dot_def insertion_matrix_rows)
  have nc: "ncols ?T1 = length c0"
  proof (cases "T = []")
    case True
    then show ?thesis using Cons.prems(5) T1ne
      by (cases ?T1) (auto simp: ncols_def dot_def insertion_matrix_rows upt_conv_Cons simp del: upt_Suc)
  next
    case False
    have "?M \<noteq> []" by (simp add: insertion_matrix_rows)
    then show ?thesis using Cons.prems(4)[OF False] by (simp add: ncols_dot)
  qed
  have mv: "matvec ?T1 c0 = matvec ?M (matvec T c0)"
    by (rule matvec_dot) (use Cons.prems(4,5) in auto)
  have "(\<Sum>j<N + 1 + length ks. matvec (fst (insertion_loop deg ks (N + 1) ?T1 ?k1)) c0 ! j *
            cdb (snd (insertion_loop deg ks (N + 1) ?T1 ?k1)) x
              (rind (snd (insertion_loop deg ks (N + 1) ?T1 ?k1)) x) deg j)
       = (\<Sum>j<N + 1. matvec ?T1 c0 ! j * cdb ?k1 x (rind ?k1 x) deg j)"
  proof (rule Cons.IH)
    show "sorted ?k1" by simp
    show "length ?k1 = N + 1 + deg + 1" using Cons.prems(2) by simp
    show "length ?T1 = N + 1" by simp
    show "ncols ?T1 = length c0" by (rule nc)
    show "?T1 = [] \<Longrightarrow> c0 = []" using T1ne by simp
  qed
  also have "\<dots> = (\<Sum>j<N. matvec T c0 ! j * cdb kts x (rind kts x) deg j)"
    unfolding mv
  proof (rule insertion_step_sum[OF Cons.prems(1,2)])
    show "length (matvec T c0) = N" by (simp add: Cons.prems(3))
    show "rind kts x j = wt z (kts ! j) (kts ! j) * rind ?k1 x j
        + (1 - wt z (kts ! (j + 1)) (kts ! (j + 1))) * rind ?k1 x (j + 1)"
      if "j + 1 < length kts" for j
      using that by (rule rind_base[OF Cons.prems(1)])
    show "rind ?k1 x m = 0" if "?k1 ! m = z" "?k1 ! (m + 1) = z" for m
      using that by (rule rind_supp)
  qed
  finally show ?case by simp
qed

lemma length_filter_take_drop_le:
  "length (filter P (take a (drop b xs))) \<le> length (filter P xs)"
proof -
  have split: "length (filter P ys) = length (filter P (take n ys)) + length (filter P (drop n ys))"
    for n and ys :: "'a list"
    by (subst append_take_drop_id[of n ys, symmetric], subst filter_append) simp
  have "length (filter P (take a (drop b xs))) \<le> length (filter P (drop b xs))"
    using split[of "drop b xs" a] by simp
  also have "\<dots> \<le> length (filter P xs)" using split[of xs b] by simp
  finally show ?thesis .
qed

subsection \<open>The cropped curve at \<open>min_value\<close>\<close>

lemma crop_eval_min:
  fixes s :: bspline and mn mx :: real
  assumes srt: "sorted (knots (basis s))" and valid: "degree (basis s) + 1 \<le> length (knots (basis s))"
    and len: "length (coeffs s) = len_basis (basis s)"
    and lo: "knots (basis s) ! 0 \<le> mn" and lt: "mn < mx"
    and cnt: "length (filter (\<lambda>y. y = mn) (knots (basis s))) \<le> degree (basis s)
        \<or> (mn = knots (basis s) ! 0
            \<and> length (filter (\<lambda>y. y = mn) (knots (basis s))) \<le> degree (basis s) + 1)"
  shows "\<exists>s'. crop s mn mx = Inr s' \<and> evalspline s' mn = evalspline s mn"
proof -
  let ?b = "basis s" and ?k = "knots (basis s)" and ?deg = "degree (basis s)" and ?N = "len_basis (basis s)"
  define ks where "ks = replicate (?deg + 1 - length (filter (\<lambda>y. y = mn) ?k)) mn
              @ replicate (?deg + 1 - length (filter (\<lambda>y. y = mx) ?k)) mx"
  define L where "L = insertion_loop ?deg ks ?N (eye ?N) ?k"
  define T where "T = fst L"
  define k2 where "k2 = snd L"
  define jmin where "jmin = searchsorted_left k2 mn"
  define jmax where "jmax = searchsorted_right k2 mx"
  define Nc where "Nc = jmax - ?deg - 1 - jmin"
  define kc where "kc = take (jmax - jmin) (drop jmin k2)"
  define c2 where "c2 = matvec T (coeffs s)"
  define cc where "cc = matvec (take Nc (drop jmin T)) (coeffs s)"
  define s' where "s' = \<lparr>basis = \<lparr>knots = kc, degree = ?deg\<rparr>, coeffs = cc\<rparr>"
  note K = crop_knots2[OF srt lt, of ?deg ?N "eye ?N", folded ks_def, folded L_def,
      folded k2_def, folded jmin_def jmax_def]
  have lenk: "length ?k = ?N + ?deg + 1" using valid by (simp add: len_basis_def)
  have rec: "\<lparr>knots = ?k, degree = ?deg\<rparr> = ?b" by simp
  have lenT: "length T = ?N + length ks"
    unfolding T_def L_def by (rule insertion_loop_rows) simp
  have lenk2: "length k2 = ?N + length ks + ?deg + 1"
    unfolding k2_def L_def insertion_loop_length_knots lenk by simp
  have cropT: "crop_T ?b mn mx = Inr (take Nc (drop jmin T), kc)"
    using crop_T_result[OF srt valid lt]
    unfolding ks_def[symmetric] L_def[symmetric] T_def[symmetric] k2_def[symmetric]
      jmin_def[symmetric] jmax_def[symmetric] Nc_def kc_def .
  have crop: "crop s mn mx = Inr s'"
    unfolding crop_def cropT by (simp add: apply_T_def len s'_def cc_def)
  have lenkc: "length kc = jmax - jmin" unfolding kc_def using K(3) by simp
  have Nc: "Nc + ?deg + 1 = jmax - jmin" "jmin + Nc = jmax - ?deg - 1" unfolding Nc_def using K(2) by simp_all
  have lenb': "len_basis (basis s') = Nc" unfolding s'_def len_basis_def using lenkc Nc by simp
  have lencc: "length cc = Nc" unfolding cc_def using lenT lenk2 K(3) Nc by simp
  have kc_nth: "kc ! i = k2 ! (i + jmin)" if "i < jmax - jmin" for i
    unfolding kc_def using that K(3) by (simp add: add.commute)
  have kc0: "kc ! 0 = mn" using kc_nth[of 0] K(2) K(4)[of jmin] by simp
  have cc_nth: "cc ! j = c2 ! (j + jmin)" if "j < Nc" for j
  proof -
    have "cc = take Nc (drop jmin c2)" unfolding cc_def c2_def by (rule matvec_slice)
    then show ?thesis using that lenT lenk2 K(3) Nc by (simp add: c2_def add.commute)
  qed
  have srtc: "sorted kc" unfolding kc_def using K(1) by (simp add: sorted_wrt_take sorted_wrt_drop)
  have nle: "length (filter (\<lambda>y. y = mn) ?k) \<le> ?deg + 1" using cnt by auto
  have cnt2: "length (filter (\<lambda>y. y = mn) k2) = ?deg + 1"
  proof -
    have ms: "mset k2 = mset ?k + mset ks" unfolding k2_def L_def by (rule insertion_loop_mset)
    have "length (filter (\<lambda>y. y = mn) ks) = ?deg + 1 - length (filter (\<lambda>y. y = mn) ?k)"
      using lt by (simp add: ks_def)
    then show ?thesis unfolding length_filter_mset[OF ms] using nle by simp
  qed
  have "length (filter (\<lambda>y. y = mn) kc) \<le> ?deg + 1"
    unfolding kc_def using length_filter_take_drop_le[of "\<lambda>y. y = mn" "jmax - jmin" jmin k2] cnt2
    by simp
  then have cntc: "length (filter (\<lambda>y. y = kc ! 0) kc) \<le> ?deg + 1"
    unfolding kc0 .
  let ?B2 = "cdb k2 mn (rind k2 mn) ?deg"
  have B_first: "cdb kc mn (ind0 \<lparr>knots = kc, degree = ?deg\<rparr> mn) ?deg j = cdb kc mn (rind kc mn) ?deg j"
    if "j < Nc" for j
    using cdb_ind0_rind_first[OF srtc cntc, of j] that lenkc Nc unfolding kc0 by simp
  have B_shift: "cdb kc mn (rind kc mn) ?deg j = ?B2 (j + jmin)" if "j < Nc" for j
  proof (rule cdb_shift)
    fix i assume "j \<le> i" "i \<le> j + ?deg + 1"
    then show "kc ! i = k2 ! (i + jmin)" using that Nc by (intro kc_nth) simp
  next
    fix i assume i: "j \<le> i" "i \<le> j + ?deg"
    show "rind kc mn i = rind k2 mn (i + jmin)"
      unfolding rind_def using kc_nth[of i] kc_nth[of "i + 1"] i that Nc by simp
  qed
  have ev': "evalspline s' mn = Inr (\<Sum>j<Nc. c2 ! (j + jmin) * ?B2 (j + jmin))"
  proof -
    have "evalspline s' mn = Inr (\<Sum>j<Nc. cc ! j * cdb kc mn (ind0 \<lparr>knots = kc, degree = ?deg\<rparr> mn) ?deg j)"
      using evalspline_sum[of s' mn] lenb' lencc by (simp add: s'_def)
    also have "(\<Sum>j<Nc. cc ! j * cdb kc mn (ind0 \<lparr>knots = kc, degree = ?deg\<rparr> mn) ?deg j)
        = (\<Sum>j<Nc. c2 ! (j + jmin) * ?B2 (j + jmin))"
      by (rule sum.cong) (simp_all add: cc_nth B_first B_shift)
    finally show ?thesis .
  qed
  have zero_lo: "?B2 j = 0" if "j < jmin" for j
  proof (rule cdb_rind_zero[OF K(1)])
    show in_range: "j + ?deg + 1 < length k2" using that K(2,3) by simp
    have "k2 ! (j + ?deg + 1) \<le> k2 ! (jmin + ?deg)" using that K(1,2,3) by (intro sorted_nth_mono) simp_all
    also have "\<dots> = mn" using K(4)[of "jmin + ?deg"] by simp
    finally show "mn < k2 ! j \<or> k2 ! (j + ?deg + 1) \<le> mn" by simp
  qed
  have zero_hi: "?B2 j = 0" if "jmin + Nc \<le> j" "j < ?N + length ks" for j
  proof (rule cdb_rind_zero[OF K(1)])
    show in_range: "j + ?deg + 1 < length k2" using that lenk2 by simp
    have "k2 ! (jmax - ?deg - 1) \<le> k2 ! j"
      using that Nc in_range K(1) by (intro sorted_nth_mono) simp_all
    moreover have "k2 ! (jmax - ?deg - 1) = mx" using K(5)[of "jmax - ?deg - 1"] K(2) by simp
    ultimately show "mn < k2 ! j \<or> k2 ! (j + ?deg + 1) \<le> mn" using lt by simp
  qed
  have orig: "cdb ?k mn (ind0 ?b mn) ?deg j = cdb ?k mn (rind ?k mn) ?deg j" if "j < ?N" for j
  proof (cases "mn = ?k ! 0")
    case True
    show ?thesis
      using cdb_ind0_rind_first[OF srt, of ?deg j] nle that lenk unfolding True[symmetric] rec by simp
  next
    case False
    then have "ind0 ?b mn = hind ?k mn" by (auto simp: ind0_hind)
    moreover have "cdb ?k mn (hind ?k mn) ?deg j = cdb ?k mn (rind ?k mn) ?deg j"
      using cnt False that lenk by (intro cdb_hind_rind[OF srt]) simp_all
    ultimately show ?thesis by simp
  qed
  have "evalspline s mn = Inr (\<Sum>j<?N. coeffs s ! j * cdb ?k mn (ind0 ?b mn) ?deg j)"
    using evalspline_sum[of s mn] len by simp
  also have "(\<Sum>j<?N. coeffs s ! j * cdb ?k mn (ind0 ?b mn) ?deg j)
      = (\<Sum>j<?N. matvec (eye ?N) (coeffs s) ! j * cdb ?k mn (rind ?k mn) ?deg j)"
    using len by (intro sum.cong) (simp_all add: matvec_eye orig)
  also have "\<dots> = (\<Sum>j<?N + length ks. c2 ! j * ?B2 j)"
    unfolding c2_def T_def k2_def L_def
  proof (rule insertion_loop_eval_rind[OF srt lenk, symmetric])
    show "length (eye ?N) = ?N" by simp
    show "ncols (eye ?N) = length (coeffs s)" using len by (simp add: ncols_eye)
    show "eye ?N = [] \<Longrightarrow> coeffs s = []" using len by (simp add: eye_def)
  qed
  also have "\<dots> = (\<Sum>j<Nc. c2 ! (j + jmin) * ?B2 (j + jmin))"
  proof (rule sum_window)
    show "c2 ! j * ?B2 j = 0" if "j < jmin" for j using zero_lo[OF that] by simp
    show "c2 ! j * ?B2 j = 0" if "jmin + Nc \<le> j" "j < ?N + length ks" for j
      using zero_hi[OF that] by simp
    show "jmin + Nc \<le> ?N + length ks" using Nc K(3) lenk2 by simp
  qed
  finally have "evalspline s mn = evalspline s' mn" using ev' by simp
  then show ?thesis using crop by (intro exI[of _ s']) simp
qed

subsection \<open>Crop and evaluation\<close>

text \<open>
  C2 (as stated). Two points of the range \<open>min_value \<le> x \<le> max_value\<close> where the cropped
  curve differs. The basis with knots \<open>[0, 0, 1, 2, 2]\<close> and degree 1, coefficients
  \<open>[1, 2, 3]\<close>, cropped to \<open>min_value = max_value = 1\<close>: the returned curve has the knots
  \<open>[1, 1, 1]\<close> and the single coefficient 2, and evaluates at \<open>x = 1\<close> to 0, while the
  original evaluates to 2. The basis with knots \<open>[0, 0, 1, 1, 2, 2]\<close> and degree 1, whose
  interior knot 1 has the full multiplicity \<open>degree + 1\<close>, coefficients \<open>[1, 2, 3, 4]\<close>,
  cropped to \<open>[1, 2]\<close>: at \<open>x = min_value = 1\<close> the original evaluates to 2, the value from
  the left, and the cropped curve to 3, the value from the right.
\<close>

theorem crop_exact_counterexample:
  "crop \<lparr>basis = \<lparr>knots = [0, 0, 1, 2, 2], degree = 1\<rparr>, coeffs = [1, 2, 3]\<rparr> 1 1
     = Inr \<lparr>basis = \<lparr>knots = [1, 1, 1], degree = 1\<rparr>, coeffs = [2]\<rparr>
   \<and> evalspline \<lparr>basis = \<lparr>knots = [1, 1, 1], degree = 1\<rparr>, coeffs = [2]\<rparr> 1 = Inr 0
   \<and> evalspline \<lparr>basis = \<lparr>knots = [0, 0, 1, 2, 2], degree = 1\<rparr>, coeffs = [1, 2, 3]\<rparr> 1 = Inr 2
   \<and> crop \<lparr>basis = \<lparr>knots = [0, 0, 1, 1, 2, 2], degree = 1\<rparr>, coeffs = [1, 2, 3, 4]\<rparr> 1 2
     = Inr \<lparr>basis = \<lparr>knots = [1, 1, 2, 2], degree = 1\<rparr>, coeffs = [3, 4]\<rparr>
   \<and> evalspline \<lparr>basis = \<lparr>knots = [1, 1, 2, 2], degree = 1\<rparr>, coeffs = [3, 4]\<rparr> 1 = Inr 3
   \<and> evalspline \<lparr>basis = \<lparr>knots = [0, 0, 1, 1, 2, 2], degree = 1\<rparr>, coeffs = [1, 2, 3, 4]\<rparr> 1
     = Inr 2"
  by code_simp

text \<open>
  C2 (amended). For a spline over a non-decreasing knot vector with \<open>len(basis)\<close>
  coefficients, bounds \<open>knots[0] \<le> min_value < max_value \<le> knots[-1]\<close> and every \<open>x\<close> with
  \<open>min_value \<le> x \<le> max_value\<close>, \<open>crop\<close> returns a curve that evaluates at \<open>x\<close> to the same
  value as the original, provided that at \<open>x = min_value\<close> the number of knots equal to
  \<open>min_value\<close> is at most \<open>degree\<close>, or at most \<open>degree + 1\<close> when \<open>min_value\<close> is the first
  knot; and the knot vector returned by \<open>crop_T\<close> is non-decreasing, starts with
  \<open>min_value\<close> and ends with \<open>max_value\<close>.
\<close>

theorem crop_exact:
  assumes "sorted (knots (basis s))" and "degree (basis s) + 1 \<le> length (knots (basis s))"
    and "length (coeffs s) = len_basis (basis s)"
    and "knots (basis s) ! 0 \<le> min_value" and "min_value < max_value"
    and "max_value \<le> last (knots (basis s))"
    and "min_value \<le> x" and "x \<le> max_value"
    and "min_value < x
      \<or> length (filter (\<lambda>k. k = min_value) (knots (basis s))) \<le> degree (basis s)
      \<or> (min_value = knots (basis s) ! 0
          \<and> length (filter (\<lambda>k. k = min_value) (knots (basis s))) \<le> degree (basis s) + 1)"
  shows "\<exists>T kts' s'. crop_T (basis s) min_value max_value = Inr (T, kts')
     \<and> sorted kts' \<and> kts' \<noteq> [] \<and> kts' ! 0 = min_value \<and> last kts' = max_value
     \<and> crop s min_value max_value = Inr s' \<and> knots (basis s') = kts'
     \<and> evalspline s' x = evalspline s x"
proof -
  from crop_eval[OF assms(1,2,3,4,5,5) order_refl]
  obtain s' where s': "crop s min_value max_value = Inr s'"
    "sorted (knots (basis s'))" "knots (basis s') \<noteq> []"
    "knots (basis s') ! 0 = min_value" "last (knots (basis s')) = max_value"
    by auto
  have ev: "evalspline s' x = evalspline s x"
  proof (cases "min_value < x")
    case True
    from crop_eval[OF assms(1,2,3,4,5) True assms(8)] s'(1) show ?thesis by auto
  next
    case False
    then have x: "x = min_value" using assms(7) by simp
    have "length (filter (\<lambda>k. k = min_value) (knots (basis s))) \<le> degree (basis s)
      \<or> (min_value = knots (basis s) ! 0
          \<and> length (filter (\<lambda>k. k = min_value) (knots (basis s))) \<le> degree (basis s) + 1)"
      using assms(9) False by simp
    from crop_eval_min[OF assms(1,2,3,4,5) this] s'(1) show ?thesis unfolding x by auto
  qed
  show ?thesis
  proof (cases "crop_T (basis s) min_value max_value")
    case (Inl e)
    then show ?thesis using s'(1) by (simp add: crop_def)
  next
    case (Inr Tk)
    then have "apply_T Tk s = Inr s'" using s'(1) by (simp add: crop_def)
    then have "knots (basis s') = snd Tk" by (auto simp: apply_T_def split: if_splits)
    then show ?thesis using Inr s' ev
      by (intro exI[of _ "fst Tk"] exI[of _ "snd Tk"] exI[of _ s']) simp
  qed
qed

text \<open>
  The instances: the cubic basis on \<open>[0, 3]\<close> cropped to \<open>[1, 2]\<close>, at the interior point
  \<open>3/2\<close> and at \<open>min_value = 1\<close>, a knot of multiplicity 1.
\<close>

theorem crop_exact_witness:
  "\<exists>T kts' s'. crop_T \<lparr>knots = [0, 0, 0, 0, 1, 2, 3, 3, 3, 3], degree = 3\<rparr> 1 2 = Inr (T, kts')
     \<and> kts' ! 0 = 1 \<and> last kts' = 2
     \<and> crop \<lparr>basis = \<lparr>knots = [0, 0, 0, 0, 1, 2, 3, 3, 3, 3], degree = 3\<rparr>,
               coeffs = [1, 2, 3, 4, 5, 6]\<rparr> 1 2 = Inr s'
     \<and> evalspline s' (3/2) = Inr (7/2) \<and> evalspline s' 1 = Inr (35/12)"
proof -
  let ?s = "\<lparr>basis = \<lparr>knots = [0, 0, 0, 0, 1, 2, 3, 3, 3, 3], degree = 3\<rparr>,
             coeffs = [1, 2, 3, 4, 5, 6 :: real]\<rparr>"
  have e: "evalspline ?s (3/2) = Inr (7/2)" by code_simp
  have f: "evalspline ?s 1 = Inr (35/12)" by code_simp
  have "\<exists>T kts' s'. crop_T (basis ?s) 1 2 = Inr (T, kts')
     \<and> sorted kts' \<and> kts' \<noteq> [] \<and> kts' ! 0 = 1 \<and> last kts' = 2
     \<and> crop ?s 1 2 = Inr s' \<and> knots (basis s') = kts'
     \<and> evalspline s' (3/2) = evalspline ?s (3/2)"
    by (rule crop_exact) (simp_all add: len_basis_def)
  then obtain T kts' s' where 1: "crop_T (basis ?s) 1 2 = Inr (T, kts')" "kts' ! 0 = 1" "last kts' = 2"
    "crop ?s 1 2 = Inr s'" "evalspline s' (3/2) = Inr (7/2)"
    unfolding e by auto
  have "\<exists>T kts' s'. crop_T (basis ?s) 1 2 = Inr (T, kts')
     \<and> sorted kts' \<and> kts' \<noteq> [] \<and> kts' ! 0 = 1 \<and> last kts' = 2
     \<and> crop ?s 1 2 = Inr s' \<and> knots (basis s') = kts'
     \<and> evalspline s' 1 = evalspline ?s 1"
    by (rule crop_exact) (simp_all add: len_basis_def)
  then have "evalspline s' 1 = Inr (35/12)" unfolding f 1(4) by auto
  then show ?thesis using 1 by auto
qed

section \<open>No domain checks in \<open>crop_T\<close> and \<open>extrapolate_T\<close>\<close>










section \<open>The matrix and the knots of \<open>shiftoverknot_T\<close>\<close>

subsection \<open>Shapes\<close>

lemma length_set_block [simp]: "length (set_block M r0 c0 S) = length M"
  by (simp add: set_block_def)








subsection \<open>The assembled matrix\<close>











section \<open>The inverse of \<open>shiftfirstknot_T\<close> on a single knot interval\<close>

text \<open>
  C6. The claim: for every basis and every \<open>t_shift\<close> strictly between 0 and the length of
  the first knot interval, \<open>shiftfirstknot_T(basis, t_shift, inverse=True)\<close> returns \<open>T\<close> and
  \<open>Tinv\<close> with \<open>Tinv\<close> composed with \<open>T\<close> the identity. On the basis of degree 1 with the
  knots \<open>[0, 0, 1, 1]\<close>, which has \<open>degree + 1\<close> basis functions, and \<open>t_shift = 1/2\<close>, the
  call raises \<open>IndexError\<close>: the sum of the back-substitution runs over
  \<open>range(i+1, deg+2)\<close> and reads \<open>T[0, 2]\<close> in a \<open>2 \<times> 2\<close> matrix. Without \<open>inverse\<close> the same
  input gives \<open>T\<close>. With one more basis function, on the knots \<open>[0, 0, 1, 2, 2]\<close>, the
  extra term of the sum is a zero of \<open>T\<close>, and the product of the returned \<open>Tinv\<close> and \<open>T\<close> is
  the identity.
\<close>

theorem shiftfirstknot_inverse_single_interval:
  "shiftfirstknot_T \<lparr>knots = [0, 0, 1, 1], degree = 1\<rparr> (1 / 2) True = Some (Inl IndexError)
   \<and> shiftfirstknot_T \<lparr>knots = [0, 0, 1, 1], degree = 1\<rparr> (1 / 2) False
       = Some (Inr ([[1 / 2, 1 / 2], [0, 1]], None))
   \<and> shiftfirstknot_T \<lparr>knots = [0, 0, 1, 2, 2], degree = 1\<rparr> (1 / 2) True
       = Some (Inr ([[1 / 2, 1 / 2, 0], [0, 1, 0], [0, 0, 1]],
                    Some [[2, - 1, 0], [0, 1, 0], [0, 0, 1]]))
   \<and> dot [[2, - 1, 0], [0, 1, 0], [0, 0, 1]] [[1 / 2, 1 / 2, 0], [0, 1, 0], [0, 0, 1]] = eye 3"
  by code_simp

end
